theory Spec2Isabelle
  imports Complex_Main "HOL-Library.Word" "HOL-Library.Log_Nat"
begin

section \<open>Strings of the host language\<close>

text \<open>
  A JavaScript string is a sequence of UTF-16 code units and \<open>length\<close> counts code units.
  A regular expression without the \<open>u\<close> flag works on code units as well.
  Literals of the theory are written with \<open>str\<close>.
\<close>

type_synonym code_unit = "16 word"
type_synonym jsstring = "code_unit list"

definition str :: "string \<Rightarrow> jsstring" where
  "str s = map of_char s"

text \<open>
  The class \<open>\s\<close> of a regular expression and the characters removed by \<open>trim()\<close>
  are the same set: WhiteSpace and LineTerminator of ECMAScript.
\<close>

definition isWhiteSpace :: "code_unit \<Rightarrow> bool" where
  "isWhiteSpace c \<longleftrightarrow>
     c \<in> {0x0009, 0x000A, 0x000B, 0x000C, 0x000D, 0x0020, 0x00A0, 0x1680,
          0x2028, 0x2029, 0x202F, 0x205F, 0x3000, 0xFEFF}
     \<or> (0x2000 \<le> c \<and> c \<le> 0x200A)"

definition space :: code_unit where
  "space = 0x20"

definition trim :: "jsstring \<Rightarrow> jsstring" where
  "trim s = rev (dropWhile isWhiteSpace (rev (dropWhile isWhiteSpace s)))"

text \<open>\<open>s.replace(/\s+/g, ' ')\<close>: every maximal run of white space becomes one space.\<close>

function collapseWhiteSpace :: "jsstring \<Rightarrow> jsstring" where
  "collapseWhiteSpace [] = []"
| "collapseWhiteSpace (c # cs) =
     (if isWhiteSpace c then space # collapseWhiteSpace (dropWhile isWhiteSpace cs)
      else c # collapseWhiteSpace cs)"
  by pat_completeness auto
termination
  by (relation "measure length") (auto simp: le_imp_less_Suc length_dropWhile_le)

text \<open>\<open>s.split(' ')\<close>: the pieces between single spaces, empty pieces included.\<close>

fun splitSpace :: "jsstring \<Rightarrow> jsstring list" where
  "splitSpace [] = [[]]"
| "splitSpace (c # cs) =
     (if c = space then [] # splitSpace cs
      else (let r = splitSpace cs in (c # hd r) # tl r))"

text \<open>
  \<open>s.split(/(?<=[.!?])\s+/)\<close>: a split point is a maximal run of white space whose
  preceding code unit is \<open>.\<close>, \<open>!\<close> or \<open>?\<close>. The run is dropped; the piece after the
  last split point is kept even when it is empty.
\<close>

definition isSentenceEnd :: "code_unit \<Rightarrow> bool" where
  "isSentenceEnd c \<longleftrightarrow> c = 0x2E \<or> c = 0x21 \<or> c = 0x3F"

function splitSentences :: "jsstring \<Rightarrow> jsstring list" where
  "splitSentences [] = [[]]"
| "splitSentences (c # cs) =
     (if isSentenceEnd c \<and> cs \<noteq> [] \<and> isWhiteSpace (hd cs)
      then [c] # splitSentences (dropWhile isWhiteSpace cs)
      else (let r = splitSentences cs in (c # hd r) # tl r))"
  by pat_completeness auto
termination
  by (relation "measure length") (auto simp: le_imp_less_Suc length_dropWhile_le)

section \<open>Caption text of a scene (assemble-video/route.ts, lines 115-123)\<close>

definition MAX_CAPTION_LENGTH :: nat where
  "MAX_CAPTION_LENGTH = 120"

definition MIN_SCENE_DURATION :: rat where
  "MIN_SCENE_DURATION = 3"

text \<open>
  \<open>narration != null ? String(narration).trim().replace(/\s+/g, ' ').replace(/\0/g, '')
  .slice(0, MAX_CAPTION_LENGTH) : ''\<close>
\<close>

definition captionText :: "jsstring option \<Rightarrow> jsstring" where
  "captionText narration =
     (case narration of
        None \<Rightarrow> []
      | Some n \<Rightarrow> take MAX_CAPTION_LENGTH (filter (\<lambda>c. c \<noteq> 0) (collapseWhiteSpace (trim n))))"

section \<open>Caption segmentation (route.ts, lines 176-218)\<close>

definition maxCharsPerSegment :: nat where
  "maxCharsPerSegment = 45"

text \<open>
  The greedy packing loop over the words of a sentence. \<open>cur\<close> is \<open>currentChunk\<close>,
  \<open>segs\<close> the array \<open>segments\<close>; an empty string is falsy. The last equation is the
  push after the loop.
\<close>

fun packWords :: "nat \<Rightarrow> jsstring list \<Rightarrow> jsstring \<Rightarrow> jsstring list \<Rightarrow> jsstring list" where
  "packWords maxc [] cur segs = (if cur \<noteq> [] then segs @ [trim cur] else segs)"
| "packWords maxc (w # ws) cur segs =
     (if length cur + length w + 1 \<le> maxc
      then packWords maxc ws (if cur \<noteq> [] then cur @ [space] @ w else w) segs
      else packWords maxc ws w (if cur \<noteq> [] then segs @ [trim cur] else segs))"

fun processSentences :: "nat \<Rightarrow> jsstring list \<Rightarrow> jsstring list \<Rightarrow> jsstring list" where
  "processSentences maxc [] segs = segs"
| "processSentences maxc (s # ss) segs =
     processSentences maxc ss
       (if length s \<le> maxc then segs @ [trim s]
        else packWords maxc (splitSpace s) [] segs)"

definition segmentsOf :: "nat \<Rightarrow> jsstring \<Rightarrow> jsstring list" where
  "segmentsOf maxc captionForScene =
     (let sentences = filter (\<lambda>s. length (trim s) > 0) (splitSentences captionForScene);
          segs = processSentences maxc sentences []
      in if length segs = 0 then packWords maxc (splitSpace captionForScene) [] [] else segs)"

definition segments :: "jsstring \<Rightarrow> jsstring list" where
  "segments captionForScene = segmentsOf maxCharsPerSegment captionForScene"

section \<open>Numbers of the host language\<close>

text \<open>
  A JavaScript number is an IEEE 754 binary64 value. Every finite one is a rational, and
  every arithmetic operation returns the exact result rounded to the nearest double, ties
  to the even significand. The timing code below takes the rounding as a parameter
  \<open>rnd\<close>, applied after each operation: \<open>exact\<close> is arithmetic without rounding,
  \<open>toDouble\<close> the rounding of binary64 for results in the normal range
  (\<open>2 ^ -1022 \<le> \<bar>x\<bar> < 2 ^ 1024\<close>; overflow, subnormals, infinities and NaN are
  not represented).
\<close>

definition exact :: "rat \<Rightarrow> rat" where
  "exact x = x"

definition pow2 :: "int \<Rightarrow> rat" where
  "pow2 e = (if 0 \<le> e then 2 ^ nat e else 1 / 2 ^ nat (- e))"

text \<open>\<open>binExponent x\<close> is \<open>\<lfloor>log\<^sub>2 x\<rfloor>\<close> for \<open>0 < x\<close>.\<close>

definition binExponent :: "rat \<Rightarrow> int" where
  "binExponent x =
     (let (p, q) = quotient_of x;
          e = bitlen p - bitlen q
      in if pow2 e \<le> x then e else e - 1)"

definition roundHalfEven :: "rat \<Rightarrow> int" where
  "roundHalfEven m =
     (let n = \<lfloor>m\<rfloor>; r = m - of_int n
      in if r < 1 / 2 then n
         else if 1 / 2 < r then n + 1
         else if even n then n else n + 1)"

definition toDouble :: "rat \<Rightarrow> rat" where
  "toDouble x =
     (if x = 0 then 0
      else (let e = binExponent \<bar>x\<bar> - 52
            in of_int (roundHalfEven (x / pow2 e)) * pow2 e))"


text \<open>
  \<open>x.toFixed(2)\<close> for \<open>\<bar>x\<bar> < 10 ^ 21\<close>: the integer \<open>n\<close> with \<open>n / 100\<close> nearest
  to \<open>x\<close>, the larger one on a tie, printed with two decimals.
\<close>

definition digit :: "nat \<Rightarrow> code_unit" where
  "digit d = of_nat (48 + d)"

fun decimal :: "nat \<Rightarrow> jsstring" where
  "decimal n = (if n < 10 then [digit n] else decimal (n div 10) @ [digit (n mod 10)])"

definition toFixed2 :: "rat \<Rightarrow> jsstring" where
  "toFixed2 x =
     (let n = nat \<lfloor>\<bar>x\<bar> * 100 + 1 / 2\<rfloor>
      in (if x < 0 then str ''-'' else []) @
         decimal (n div 100) @ str ''.'' @ [digit (n div 10 mod 10), digit (n mod 10)])"

section \<open>Caption timing (route.ts, lines 220-237)\<close>

record timing =
  segStart :: rat
  segEnd :: rat

definition effectiveDuration :: "rat \<Rightarrow> rat" where
  "effectiveDuration durationSeconds = max durationSeconds MIN_SCENE_DURATION"

definition wordCounts :: "jsstring list \<Rightarrow> nat list" where
  "wordCounts segs = map (\<lambda>s. length (splitSpace s)) segs"

definition totalWords :: "jsstring list \<Rightarrow> nat" where
  "totalWords segs = foldl (\<lambda>a b. a + b) 0 (wordCounts segs)"

text \<open>
  The loop over \<open>idx\<close>: \<open>wcs\<close> are the word counts still to come, \<open>currentTime\<close> the
  running sum. The pushed \<open>end\<close> and the new \<open>currentTime\<close> are the same sum.
\<close>

fun timingLoop :: "(rat \<Rightarrow> rat) \<Rightarrow> rat \<Rightarrow> nat \<Rightarrow> nat list \<Rightarrow> rat \<Rightarrow> timing list" where
  "timingLoop rnd eff totalW [] currentTime = []"
| "timingLoop rnd eff totalW (wc # wcs) currentTime =
     (let segmentProportion = rnd (of_nat wc / of_nat totalW);
          segmentDuration = rnd (eff * segmentProportion)
      in \<lparr>segStart = currentTime, segEnd = rnd (currentTime + segmentDuration)\<rparr> #
         timingLoop rnd eff totalW wcs (rnd (currentTime + segmentDuration)))"

definition segmentTimings :: "(rat \<Rightarrow> rat) \<Rightarrow> rat \<Rightarrow> jsstring list \<Rightarrow> timing list" where
  "segmentTimings rnd eff segs = timingLoop rnd eff (totalWords segs) (wordCounts segs) 0"


text \<open>The window \<open>between(t,start,end)\<close> of a drawtext filter, as it is printed.\<close>

definition enableWindow :: "timing \<Rightarrow> jsstring \<times> jsstring" where
  "enableWindow t = (toFixed2 (segStart t), toFixed2 (segEnd t))"

section \<open>Retry with backoff (lib/retry.ts)\<close>

definition DEFAULT_ATTEMPTS :: nat where
  "DEFAULT_ATTEMPTS = 3"

definition INITIAL_MS :: rat where
  "INITIAL_MS = 1000"

record retryOptions =
  attempts :: "nat option"
  initialMs :: "rat option"

text \<open>
  What \<open>withRetry\<close> does to its surroundings, in order: the \<open>i\<close>-th call of \<open>fn\<close>
  and the timers it waits for. The operation is given by the outcome of each of its calls,
  \<open>fn i\<close> for the call in iteration \<open>i\<close>: \<open>Inl\<close> a rejection, \<open>Inr\<close> a value. The
  result is \<open>Inr\<close> the value returned or \<open>Inl\<close> what is thrown, \<open>None\<close> being the
  \<open>undefined\<close> of a \<open>lastErr\<close> never assigned.
\<close>

datatype retryEvent = Invoke nat | Sleep rat

function retryLoop ::
  "(nat \<Rightarrow> 'e + 'a) \<Rightarrow> nat \<Rightarrow> rat \<Rightarrow> nat \<Rightarrow> 'e option \<Rightarrow> ('e option + 'a) \<times> retryEvent list" where
  "retryLoop fn n ms i lastErr =
     (if i < n then
        (case fn i of
           Inr v \<Rightarrow> (Inr v, [Invoke i])
         | Inl err \<Rightarrow>
             if i = n - 1 then (Inl (Some err), [Invoke i])
             else (let delay = ms * 2 ^ i;
                       (r, evs) = retryLoop fn n ms (i + 1) (Some err)
                   in (r, Invoke i # Sleep delay # evs)))
      else (Inl lastErr, []))"
  by pat_completeness auto
termination
  by (relation "measure (\<lambda>(fn, n, ms, i, lastErr). n - i)") auto

definition withRetry :: "(nat \<Rightarrow> 'e + 'a) \<Rightarrow> retryOptions \<Rightarrow> ('e option + 'a) \<times> retryEvent list" where
  "withRetry fn options =
     (let n = (case attempts options of None \<Rightarrow> DEFAULT_ATTEMPTS | Some a \<Rightarrow> a);
          ms = (case initialMs options of None \<Rightarrow> INITIAL_MS | Some m \<Rightarrow> m)
      in retryLoop fn n ms 0 None)"

definition invocations :: "retryEvent list \<Rightarrow> nat" where
  "invocations evs = length (filter (\<lambda>e. case e of Invoke _ \<Rightarrow> True | Sleep _ \<Rightarrow> False) evs)"

text \<open>The calls \<open>i, \<dots>, k\<close> with the waits between them.\<close>

fun attemptsFrom :: "rat \<Rightarrow> nat \<Rightarrow> nat \<Rightarrow> retryEvent list" where
  "attemptsFrom ms i 0 = [Invoke i]"
| "attemptsFrom ms i (Suc k) = Invoke i # Sleep (ms * 2 ^ i) # attemptsFrom ms (Suc i) k"

section \<open>Deadline for a promise (lib/timeout.ts)\<close>

text \<open>
  A promise is pending or settled, and settles once. \<open>withTimeout\<close> returns a new promise
  (\<open>outer\<close>) and reacts to two things: its timer fires, or the wrapped promise (\<open>inner\<close>)
  settles. What the code does is fixed by the order of these events, so a run is a list of
  events. The reason of a rejection of \<open>outer\<close> is either the \<open>Error\<close> made from the
  message or the reason of the wrapped promise.
\<close>

datatype ('v, 'e) promise = Pending | Resolved 'v | Rejected 'e

datatype 'e reason = TimeoutError jsstring | Reason 'e

datatype timer = Armed rat | Cleared | Fired

datatype ('v, 'e) timeoutEvent = TimerFires | InnerResolves 'v | InnerRejects 'e

record ('v, 'e) timeoutState =
  inner :: "('v, 'e) promise"
  outer :: "('v, 'e reason) promise"
  timer :: timer

definition resolve :: "'v \<Rightarrow> ('v, 'e) timeoutState \<Rightarrow> ('v, 'e) timeoutState" where
  "resolve v st = (if outer st = Pending then st\<lparr>outer := Resolved v\<rparr> else st)"

definition reject :: "'e reason \<Rightarrow> ('v, 'e) timeoutState \<Rightarrow> ('v, 'e) timeoutState" where
  "reject r st = (if outer st = Pending then st\<lparr>outer := Rejected r\<rparr> else st)"

definition clearTimeout :: "('v, 'e) timeoutState \<Rightarrow> ('v, 'e) timeoutState" where
  "clearTimeout st = (case timer st of Armed ms \<Rightarrow> st\<lparr>timer := Cleared\<rparr> | _ \<Rightarrow> st)"

text \<open>
  The callbacks: of \<open>setTimeout\<close> (it runs only while the timer is armed), of \<open>then\<close>
  and of \<open>catch\<close> (the wrapped promise settles once).
\<close>

definition timeoutStep ::
  "jsstring \<Rightarrow> ('v, 'e) timeoutState \<Rightarrow> ('v, 'e) timeoutEvent \<Rightarrow> ('v, 'e) timeoutState" where
  "timeoutStep message st ev =
     (case ev of
        TimerFires \<Rightarrow>
          (case timer st of
             Armed ms \<Rightarrow> reject (TimeoutError message) (st\<lparr>timer := Fired\<rparr>)
           | _ \<Rightarrow> st)
      | InnerResolves value \<Rightarrow>
          (if inner st = Pending
           then resolve value (clearTimeout (st\<lparr>inner := Resolved value\<rparr>))
           else st)
      | InnerRejects err \<Rightarrow>
          (if inner st = Pending
           then reject (Reason err) (clearTimeout (st\<lparr>inner := Rejected err\<rparr>))
           else st))"

definition withTimeout ::
  "rat \<Rightarrow> jsstring option \<Rightarrow> ('v, 'e) timeoutEvent list \<Rightarrow> ('v, 'e) timeoutState" where
  "withTimeout ms message evs =
     foldl (timeoutStep (case message of None \<Rightarrow> str ''Request timed out'' | Some m \<Rightarrow> m))
       \<lparr>inner = Pending, outer = Pending, timer = Armed ms\<rparr> evs"

section \<open>Bounded concurrency (hooks/useVideoGeneration.ts, runWithConcurrency)\<close>

text \<open>
  The workers are asynchronous functions on one event loop: between two \<open>await\<close>s a worker
  runs alone, and which worker continues next is not fixed. A worker is at the test of its
  \<open>while\<close> loop, or awaits the task of the index it took, or has returned, or has thrown
  what its task rejected with. A run is the list of the workers in the order in which they
  continue. The task is given by its outcome \<open>fn item i\<close>: \<open>Inl\<close> a rejection,
  \<open>Inr\<close> a value. \<open>None\<close> in \<open>results\<close> is a slot of \<open>new Array(n)\<close> not written
  yet.
\<close>

datatype 'e worker = AtLoopTest | Awaiting nat | Returned | Threw 'e

record ('e, 'r) pool =
  nextIndex :: nat
  results :: "'r option list"
  workers :: "'e worker list"

definition initPool :: "nat \<Rightarrow> 'a list \<Rightarrow> ('e, 'r) pool" where
  "initPool concurrency items =
     \<lparr>nextIndex = 0,
      results = replicate (length items) None,
      workers = replicate (min concurrency (length items)) AtLoopTest\<rparr>"

definition advance ::
  "('a \<Rightarrow> nat \<Rightarrow> 'e + 'r) \<Rightarrow> 'a list \<Rightarrow> ('e, 'r) pool \<Rightarrow> nat \<Rightarrow> ('e, 'r) pool" where
  "advance fn items st w =
     (if w < length (workers st) then
        (case workers st ! w of
           AtLoopTest \<Rightarrow>
             (if nextIndex st < length items
              then st\<lparr>nextIndex := nextIndex st + 1,
                      workers := (workers st)[w := Awaiting (nextIndex st)]\<rparr>
              else st\<lparr>workers := (workers st)[w := Returned]\<rparr>)
         | Awaiting i \<Rightarrow>
             (case fn (items ! i) i of
                Inr r \<Rightarrow> st\<lparr>results := (results st)[i := Some r],
                            workers := (workers st)[w := AtLoopTest]\<rparr>
              | Inl e \<Rightarrow> st\<lparr>workers := (workers st)[w := Threw e]\<rparr>)
         | _ \<Rightarrow> st)
      else st)"

definition runPool ::
  "('a \<Rightarrow> nat \<Rightarrow> 'e + 'r) \<Rightarrow> 'a list \<Rightarrow> nat list \<Rightarrow> ('e, 'r) pool \<Rightarrow> ('e, 'r) pool" where
  "runPool fn items sched st = foldl (advance fn items) st sched"

text \<open>
  \<open>await Promise.all(workers); return results\<close>: the array is returned once every worker
  has returned.
\<close>

definition poolReturn :: "('e, 'r) pool \<Rightarrow> 'r option list option" where
  "poolReturn st = (if list_all (\<lambda>w. w = Returned) (workers st) then Some (results st) else None)"

definition runWithConcurrency ::
  "'a list \<Rightarrow> nat \<Rightarrow> ('a \<Rightarrow> nat \<Rightarrow> 'e + 'r) \<Rightarrow> nat list \<Rightarrow> 'r option list option" where
  "runWithConcurrency items concurrency fn sched =
     poolReturn (runPool fn items sched (initPool concurrency items))"

text \<open>The task mapped over the items one after the other, in the order of the input.\<close>

definition mapInOrder :: "('a \<Rightarrow> nat \<Rightarrow> 'e + 'r) \<Rightarrow> 'a list \<Rightarrow> ('e + 'r) list" where
  "mapInOrder fn items = map (\<lambda>i. fn (items ! i) i) [0..<length items]"

text \<open>A worker that can continue, and a run in which every step continues such a worker.\<close>

definition live :: "('e, 'r) pool \<Rightarrow> nat \<Rightarrow> bool" where
  "live st w \<longleftrightarrow> w < length (workers st) \<and>
     (case workers st ! w of AtLoopTest \<Rightarrow> True | Awaiting i \<Rightarrow> True | _ \<Rightarrow> False)"

fun productive ::
  "('a \<Rightarrow> nat \<Rightarrow> 'e + 'r) \<Rightarrow> 'a list \<Rightarrow> ('e, 'r) pool \<Rightarrow> nat list \<Rightarrow> bool" where
  "productive fn items st [] = True"
| "productive fn items st (w # ws) = (live st w \<and> productive fn items (advance fn items st w) ws)"

text \<open>The invariant of the pool and the number of steps it has left.\<close>

definition poolInv :: "('a \<Rightarrow> nat \<Rightarrow> 'e + 'r) \<Rightarrow> 'a list \<Rightarrow> ('e, 'r) pool \<Rightarrow> bool" where
  "poolInv fn items st \<longleftrightarrow>
     length (results st) = length items \<and> nextIndex st \<le> length items \<and>
     (\<forall>w < length (workers st). \<forall>i. workers st ! w = Awaiting i \<longrightarrow> i < nextIndex st) \<and>
     (\<forall>i < nextIndex st.
        (\<exists>r. results st ! i = Some r \<and> fn (items ! i) i = Inr r) \<or>
        (\<exists>w < length (workers st). workers st ! w = Awaiting i) \<or>
        (\<exists>w < length (workers st). \<exists>e. workers st ! w = Threw e)) \<and>
     ((\<exists>w < length (workers st). workers st ! w = Returned) \<longrightarrow> nextIndex st = length items) \<and>
     (\<forall>w < length (workers st). \<forall>e. workers st ! w = Threw e \<longrightarrow>
        (\<exists>i < length items. fn (items ! i) i = Inl e))"

definition weight :: "'e worker \<Rightarrow> nat" where
  "weight w = (case w of AtLoopTest \<Rightarrow> 1 | Awaiting i \<Rightarrow> 2 | _ \<Rightarrow> 0)"

definition stepsLeft :: "'a list \<Rightarrow> ('e, 'r) pool \<Rightarrow> nat" where
  "stepsLeft items st = 2 * (length items - nextIndex st) + sum_list (map weight (workers st))"

section \<open>Regenerating one scene (hooks/useVideoGeneration.ts, regenerateScene)\<close>

text \<open>
  Arrays are objects: a variable holds the address of an array, and the elements of an
  array of scene assets are the addresses of the asset objects (\<open>None\<close> is \<open>undefined\<close>,
  also for a hole). Two elements are pointer-identical when they are the same address.
  \<open>arrays\<close> gives the elements of the array at an address, \<open>nextAddr\<close> is the first
  address not in use. Reading past the end gives \<open>undefined\<close>; writing past the end
  extends the array.
\<close>

type_synonym addr = nat

type_synonym slot = "addr option"

definition arrayGet :: "slot list \<Rightarrow> nat \<Rightarrow> slot" where
  "arrayGet xs j = (if j < length xs then xs ! j else None)"

definition arraySet :: "slot list \<Rightarrow> nat \<Rightarrow> addr \<Rightarrow> slot list" where
  "arraySet xs k v =
     (if k < length xs then xs[k := Some v]
      else xs @ replicate (k - length xs) None @ [Some v])"

text \<open>
  What is thrown: an \<open>Error\<close> whose name is \<open>AbortError\<close>, another \<open>Error\<close>, or a value
  that is no \<open>Error\<close>. The first two carry their message.
\<close>

datatype jsError = AbortError jsstring | OtherError jsstring | NotAnError

datatype 'b effect = CostAdded nat | Assembled 'b | Revoked jsstring | UrlCreated jsstring

record 'b hook =
  arrays :: "addr \<Rightarrow> slot list"
  nextAddr :: addr
  videoBlobUrl :: "jsstring option"
  assets :: "addr option"
  regeneratingSceneIndex :: "nat option"
  effects :: "'b effect list"

text \<open>
  The calls that leave the hook, each given by its outcome: the provider configuration,
  the new asset of the scene, the assembly of a list of assets into a blob, and the URL made
  for a blob.
\<close>

record 'b regenCalls =
  fetchProviderConfig :: "jsError + bool"
  generateSceneAsset :: "bool \<Rightarrow> jsError + addr"
  assembleVideo :: "slot list \<Rightarrow> jsError + 'b"
  createObjectURL :: "'b \<Rightarrow> jsstring"

datatype regenResult = Ok | NotOk jsstring

text \<open>The message of the \<open>catch\<close> block.\<close>

definition regenerateFailure :: "jsError \<Rightarrow> regenResult" where
  "regenerateFailure e =
     (case e of
        AbortError m \<Rightarrow> NotOk (str ''Regeneration cancelled'')
      | OtherError m \<Rightarrow> NotOk m
      | NotAnError \<Rightarrow> NotOk (str ''Regenerate failed''))"

text \<open>
  The result is \<open>Inl\<close> when the promise of \<open>regenerateScene\<close> rejects (the configuration
  is fetched outside the \<open>try\<close>), \<open>Inr\<close> its value otherwise. The progress display and
  the abort controller are left out.
\<close>

definition regenerateScene ::
  "'b regenCalls \<Rightarrow> nat \<Rightarrow> addr \<Rightarrow> jsstring option \<Rightarrow> 'b hook \<Rightarrow> (jsError + regenResult) \<times> 'b hook" where
  "regenerateScene calls sceneIndex currentAssets previousBlobUrl st0 =
     (let st1 = st0\<lparr>regeneratingSceneIndex := Some sceneIndex\<rparr> in
      case fetchProviderConfig calls of
        Inl e \<Rightarrow> (Inl e, st1)
      | Inr useVideo \<Rightarrow>
          (let (res, st) =
             (case generateSceneAsset calls useVideo of
                Inl e \<Rightarrow> (regenerateFailure e, st1)
              | Inr asset \<Rightarrow>
                  (let st2 = st1\<lparr>effects := effects st1 @ [CostAdded sceneIndex]\<rparr>;
                       newAssets = nextAddr st2;
                       st3 = st2\<lparr>arrays := (arrays st2)(newAssets := arrays st2 currentAssets),
                                nextAddr := nextAddr st2 + 1\<rparr>;
                       st4 = st3\<lparr>arrays := (arrays st3)
                                (newAssets := arraySet (arrays st3 newAssets) sceneIndex asset)\<rparr>
                   in case assembleVideo calls (arrays st4 newAssets) of
                        Inl e \<Rightarrow> (regenerateFailure e, st4)
                      | Inr blob \<Rightarrow>
                          (let st5 = st4\<lparr>effects := effects st4 @ [Assembled blob]\<rparr>;
                               st6 = (case previousBlobUrl of
                                        None \<Rightarrow> st5
                                      | Some u \<Rightarrow>
                                          if u \<noteq> [] then st5\<lparr>effects := effects st5 @ [Revoked u]\<rparr>
                                          else st5);
                               url = createObjectURL calls blob;
                               st7 = st6\<lparr>effects := effects st6 @ [UrlCreated url],
                                        videoBlobUrl := Some url\<rparr>;
                               st8 = st7\<lparr>assets := Some newAssets\<rparr>
                           in (Ok, st8))))
           in (Inr res, st\<lparr>regeneratingSceneIndex := None\<rparr>)))"

text \<open>A hook with three assets and a video, and the calls of a regeneration.\<close>

definition sampleHook :: "nat hook" where
  "sampleHook =
     \<lparr>arrays = (\<lambda>a. [])(0 := [Some 100, Some 101, Some 102]),
      nextAddr = 1,
      videoBlobUrl = Some (str ''blob:old''),
      assets = Some 0,
      regeneratingSceneIndex = None,
      effects = []\<rparr>"

definition sampleCalls :: "(jsError + nat) \<Rightarrow> nat regenCalls" where
  "sampleCalls assembled =
     \<lparr>fetchProviderConfig = Inr False,
      generateSceneAsset = (\<lambda>useVideo. Inr 200),
      assembleVideo = (\<lambda>scenes. assembled),
      createObjectURL = (\<lambda>blob. str ''blob:new'')\<rparr>"

section \<open>Request validation (lib/schemas.ts)\<close>

text \<open>
  The value \<open>request.json()\<close> gives. A number is a finite double; the keys of an object
  are distinct, and \<open>field\<close> looks one up (\<open>None\<close> is \<open>undefined\<close>).
\<close>

datatype json =
  JNull | JBool bool | JNum rat | JStr jsstring | JArr "json list" | JObj "(jsstring \<times> json) list"

definition field :: "string \<Rightarrow> (jsstring \<times> json) list \<Rightarrow> json option" where
  "field k kvs = map_of kvs (str k)"

definition MAX_SCENES :: nat where
  "MAX_SCENES = 10"

record sceneAsset =
  sceneIndex :: nat
  imageBase64 :: "jsstring option"
  videoBase64 :: "jsstring option"
  audioBase64 :: jsstring
  durationSeconds :: rat
  narration :: "jsstring option"

text \<open>
  The field schemas of zod; the outer \<open>None\<close> is a validation issue.
  \<open>z.string().min(1)\<close>, \<open>z.string().min(1).optional()\<close>, \<open>z.string().optional()\<close>,
  \<open>z.number().int().min(0)\<close>, \<open>z.number().positive()\<close> and
  \<open>z.boolean().optional().default(true)\<close>.
\<close>

definition zString1 :: "json option \<Rightarrow> jsstring option" where
  "zString1 v = (case v of Some (JStr s) \<Rightarrow> if 1 \<le> length s then Some s else None | _ \<Rightarrow> None)"

definition zString1Optional :: "json option \<Rightarrow> jsstring option option" where
  "zString1Optional v =
     (case v of
        None \<Rightarrow> Some None
      | Some (JStr s) \<Rightarrow> if 1 \<le> length s then Some (Some s) else None
      | _ \<Rightarrow> None)"

definition zStringOptional :: "json option \<Rightarrow> jsstring option option" where
  "zStringOptional v = (case v of None \<Rightarrow> Some None | Some (JStr s) \<Rightarrow> Some (Some s) | _ \<Rightarrow> None)"

definition zIndex :: "json option \<Rightarrow> nat option" where
  "zIndex v =
     (case v of
        Some (JNum n) \<Rightarrow> if n = of_int \<lfloor>n\<rfloor> \<and> 0 \<le> n then Some (nat \<lfloor>n\<rfloor>) else None
      | _ \<Rightarrow> None)"

definition zPositive :: "json option \<Rightarrow> rat option" where
  "zPositive v = (case v of Some (JNum n) \<Rightarrow> if 0 < n then Some n else None | _ \<Rightarrow> None)"

definition zCaptions :: "json option \<Rightarrow> bool option" where
  "zCaptions v = (case v of None \<Rightarrow> Some True | Some (JBool b) \<Rightarrow> Some b | _ \<Rightarrow> None)"

text \<open>A string is truthy when it is there and not empty.\<close>

definition truthy :: "jsstring option \<Rightarrow> bool" where
  "truthy s = (case s of None \<Rightarrow> False | Some t \<Rightarrow> t \<noteq> [])"

text \<open>\<open>sceneAssetSchema\<close>: the object schema, then the two refinements.\<close>

definition parseSceneAsset :: "json \<Rightarrow> sceneAsset option" where
  "parseSceneAsset j =
     (case j of
        JObj kvs \<Rightarrow>
          (case (zIndex (field ''sceneIndex'' kvs), zString1Optional (field ''imageBase64'' kvs),
                 zString1Optional (field ''videoBase64'' kvs), zString1 (field ''audioBase64'' kvs),
                 zPositive (field ''durationSeconds'' kvs), zStringOptional (field ''narration'' kvs)) of
             (Some idx, Some img, Some vid, Some aud, Some dur, Some nar) \<Rightarrow>
               if (truthy img \<or> truthy vid) \<and> \<not> (truthy img \<and> truthy vid)
               then Some \<lparr>sceneIndex = idx, imageBase64 = img, videoBase64 = vid,
                          audioBase64 = aud, durationSeconds = dur, narration = nar\<rparr>
               else None
           | _ \<Rightarrow> None)
      | _ \<Rightarrow> None)"

text \<open>\<open>assembleVideoBodySchema.safeParse(body)\<close>: \<open>None\<close> when \<open>success\<close> is false.\<close>

definition parseAssembleBody :: "json \<Rightarrow> (sceneAsset list \<times> bool) option" where
  "parseAssembleBody j =
     (case j of
        JObj kvs \<Rightarrow>
          (case (field ''scenes'' kvs, zCaptions (field ''captions'' kvs)) of
             (Some (JArr xs), Some captions) \<Rightarrow>
               if list_all (\<lambda>x. parseSceneAsset x \<noteq> None) xs
                  \<and> 1 \<le> length xs \<and> length xs \<le> MAX_SCENES
               then Some (map (\<lambda>x. the (parseSceneAsset x)) xs, captions)
               else None
           | _ \<Rightarrow> None)
      | _ \<Rightarrow> None)"

section \<open>The filter chain of a scene (route.ts, lines 164-172 and 239-261)\<close>

definition replaceAll :: "code_unit \<Rightarrow> jsstring \<Rightarrow> jsstring \<Rightarrow> jsstring" where
  "replaceAll c r s = concat (map (\<lambda>x. if x = c then r else [x]) s)"

definition escapeForDrawtext :: "jsstring \<Rightarrow> jsstring" where
  "escapeForDrawtext text =
     replaceAll 0x0D []
       (replaceAll 0x0A (str '' '')
         (replaceAll 0x3A [0x5C, 0x3A]
           (replaceAll 0x22 []
             (replaceAll 0x27 []
               (replaceAll 0x5C [0x5C, 0x5C] text)))))"

fun joinWith :: "jsstring \<Rightarrow> jsstring list \<Rightarrow> jsstring" where
  "joinWith sep [] = []"
| "joinWith sep [x] = x"
| "joinWith sep (x # y # ys) = x @ sep @ joinWith sep (y # ys)"

definition FADE_DURATION :: rat where
  "FADE_DURATION = toDouble (3 / 10)"

text \<open>
  \<open>printNumber\<close> is the text of a number in a template literal (\<open>Number::toString\<close>): a
  parameter. The constants 1920, 1080 and 0.3 print as written.
\<close>

definition scalePad :: jsstring where
  "scalePad = str ''scale=1920:1080:force_original_aspect_ratio=decrease,'' @
              str ''pad=1920:1080:(ow-iw)/2:(oh-ih)/2''"

definition baseVfOf :: "(rat \<Rightarrow> jsstring) \<Rightarrow> rat \<Rightarrow> jsstring" where
  "baseVfOf printNumber eff =
     (let fadeOutStart = toDouble (eff - FADE_DURATION);
          fades = str ''fade=t=in:st=0:d=0.3,fade=t=out:st='' @ printNumber fadeOutStart @ str '':d=0.3''
      in scalePad @ str '','' @ fades)"

definition drawFilter :: "jsstring \<Rightarrow> timing \<Rightarrow> jsstring" where
  "drawFilter segment t =
     str ''drawtext=text='' @ [0x27] @ escapeForDrawtext segment @ [0x27] @
     str '':fontsize=28:fontcolor=white:borderw=2:bordercolor=black:box=1:boxcolor=black@0.6'' @
     str '':boxborderw=8:x=(w-text_w)/2:y=980:enable='' @ [0x27] @
     str ''between(t,'' @ toFixed2 (segStart t) @ str '','' @ toFixed2 (segEnd t) @ str '')'' @ [0x27]"

definition captionedVf :: "jsstring \<Rightarrow> rat \<Rightarrow> jsstring \<Rightarrow> jsstring" where
  "captionedVf baseVf eff captionForScene =
     (let segs = segments captionForScene;
          segmentTimings = segmentTimings toDouble eff segs;
          drawFilters = map (\<lambda>(segment, t). drawFilter segment t) (zip segs segmentTimings)
      in baseVf @ str '','' @ joinWith (str '','') drawFilters)"

section \<open>The assemble endpoint (api/assemble-video/route.ts, handleAssembleVideo)\<close>

definition MAX_ASSEMBLE_BODY_BYTES :: int where
  "MAX_ASSEMBLE_BODY_BYTES = 50 * 1024 * 1024"

text \<open>
  \<open>parseInt(s, 10)\<close>: leading white space is skipped, then an optional sign, then the
  longest run of decimal digits; \<open>None\<close> is NaN. The integer is exact here; as a double
  it compares with \<open>MAX_ASSEMBLE_BODY_BYTES\<close> in the same way, rounding being monotone.
\<close>

definition isDigit :: "code_unit \<Rightarrow> bool" where
  "isDigit c \<longleftrightarrow> 0x30 \<le> c \<and> c \<le> 0x39"

definition digitsValue :: "jsstring \<Rightarrow> int" where
  "digitsValue ds = foldl (\<lambda>a c. 10 * a + (uint c - 48)) 0 ds"

definition parseInt10 :: "jsstring \<Rightarrow> int option" where
  "parseInt10 s =
     (let t = dropWhile isWhiteSpace s;
          negative = (t \<noteq> [] \<and> hd t = 0x2D);
          u = (if t \<noteq> [] \<and> (hd t = 0x2B \<or> hd t = 0x2D) then tl t else t);
          z = takeWhile isDigit u
      in if z = [] then None
         else Some (if negative then - digitsValue z else digitsValue z))"

text \<open>
  The request: the \<open>content-length\<close> header (\<open>None\<close> when there is none) and what
  \<open>request.json()\<close> gives (\<open>None\<close> when it throws).
\<close>

record request =
  contentLength :: "jsstring option"
  body :: "json option"

datatype response =
  ApiError nat jsstring jsstring
| ValidationErrors
| Video

fun status :: "response \<Rightarrow> nat" where
  "status (ApiError code message errorCode) = code"
| "status ValidationErrors = 400"
| "status Video = 200"

datatype exn = SyntaxError | FfmpegError jsstring | TimedOut jsstring

text \<open>
  The temporary directory of the request: whether it exists, the files in it, the calls of
  \<open>fs\<close> that change it, in order, and the runs of ffmpeg on a scene with their filter
  chain. The calls of \<open>fs\<close> are taken to succeed.
\<close>

datatype fsOp = Mkdir | WriteFile jsstring | Unlink jsstring | Rmdir

record world =
  dirExists :: bool
  files :: "jsstring list"
  fsOps :: "fsOp list"
  ffmpegRuns :: "(nat \<times> jsstring) list"

definition addFile :: "jsstring \<Rightarrow> jsstring list \<Rightarrow> jsstring list" where
  "addFile name fs = (if name \<in> set fs then fs else fs @ [name])"

definition mkdirSync :: "world \<Rightarrow> world" where
  "mkdirSync w = w\<lparr>dirExists := True, fsOps := fsOps w @ [Mkdir]\<rparr>"

definition writeFileSync :: "jsstring \<Rightarrow> world \<Rightarrow> world" where
  "writeFileSync name w = w\<lparr>files := addFile name (files w), fsOps := fsOps w @ [WriteFile name]\<rparr>"

definition cleanup :: "world \<Rightarrow> world" where
  "cleanup w =
     (if dirExists w
      then w\<lparr>dirExists := False, files := [], fsOps := fsOps w @ map Unlink (files w) @ [Rmdir]\<rparr>
      else w)"

text \<open>
  What is outside: a run of ffmpeg on scene \<open>i\<close> with a filter chain ends (\<open>None\<close>) or
  fails with a message; of the concatenation and its deadline one comes first; and the
  printing of numbers. A run that ends leaves its output file.
\<close>

record env =
  ffmpegSegment :: "nat \<Rightarrow> jsstring \<Rightarrow> jsstring option"
  concatRace :: "(unit, jsstring) timeoutEvent"
  printNumber :: "rat \<Rightarrow> jsstring"

definition sceneFile :: "string \<Rightarrow> nat \<Rightarrow> string \<Rightarrow> jsstring" where
  "sceneFile prefix i ext = str prefix @ decimal i @ str ext"

definition runSegment :: "env \<Rightarrow> nat \<Rightarrow> jsstring \<Rightarrow> world \<Rightarrow> jsstring option \<times> world" where
  "runSegment e i filterChain w =
     (let w1 = w\<lparr>ffmpegRuns := ffmpegRuns w @ [(i, filterChain)]\<rparr>
      in case ffmpegSegment e i filterChain of
           None \<Rightarrow> (None, w1\<lparr>files := addFile (sceneFile ''segment-'' i ''.mp4'') (files w1)\<rparr>)
         | Some err \<Rightarrow> (Some err, w1))"

text \<open>\<open>tryRunSegment\<close>: \<open>Inl\<close> is what it throws.\<close>

definition tryRunSegment ::
  "env \<Rightarrow> nat \<Rightarrow> bool \<Rightarrow> jsstring \<Rightarrow> jsstring \<Rightarrow> world \<Rightarrow> (jsstring + unit) \<times> world" where
  "tryRunSegment e i useCaptions baseVf filterChain w =
     (case runSegment e i filterChain w of
        (None, w1) \<Rightarrow> (Inr (), w1)
      | (Some segmentErr, w1) \<Rightarrow>
          if useCaptions \<and> filterChain \<noteq> baseVf
          then (case runSegment e i baseVf w1 of
                  (None, w2) \<Rightarrow> (Inr (), w2)
                | (Some noCaptionErr, w2) \<Rightarrow> (Inl noCaptionErr, w2))
          else (Inl segmentErr, w1))"

text \<open>
  The body of the loop over the scenes: \<open>Some\<close> when the handler leaves the loop, with the
  response it returns or what it throws.
\<close>

definition renderScene ::
  "env \<Rightarrow> bool \<Rightarrow> sceneAsset \<Rightarrow> nat \<Rightarrow> world \<Rightarrow> (exn + response) option \<times> world" where
  "renderScene e captions scene i w =
     (let hasImage = truthy (imageBase64 scene);
          hasVideo = truthy (videoBase64 scene)
      in if (\<not> hasImage \<and> \<not> hasVideo) \<or> audioBase64 scene = [] \<or> durationSeconds scene \<le> 0
         then (Some (Inr (ApiError 400
                 (str ''Scene '' @ decimal i @
                  str '': either imageBase64 or videoBase64 required, plus audioBase64 and durationSeconds'')
                 (str ''BAD_REQUEST''))), w)
         else if hasImage \<and> hasVideo
         then (Some (Inr (ApiError 400
                 (str ''Scene '' @ decimal i @ str '': cannot have both imageBase64 and videoBase64'')
                 (str ''BAD_REQUEST''))), w)
         else
           (let eff = effectiveDuration (durationSeconds scene);
                w1 = writeFileSync (sceneFile ''scene-'' i ''.audio'') w;
                baseVf = baseVfOf (printNumber e) eff;
                captionForScene = captionText (narration scene);
                useCaptions = (captions \<and> length captionForScene > 0);
                vf = (if useCaptions then captionedVf baseVf eff captionForScene else baseVf);
                w2 = (if hasImage then writeFileSync (sceneFile ''scene-'' i ''.png'') w1
                      else writeFileSync (sceneFile ''scene-'' i ''.mp4'') w1)
            in case tryRunSegment e i useCaptions baseVf vf w2 of
                 (Inl err, w3) \<Rightarrow> (Some (Inl (FfmpegError err)), w3)
               | (Inr u, w3) \<Rightarrow> (None, w3)))"

fun renderScenes ::
  "env \<Rightarrow> bool \<Rightarrow> sceneAsset list \<Rightarrow> nat \<Rightarrow> world \<Rightarrow> (exn + response) option \<times> world" where
  "renderScenes e captions [] i w = (None, w)"
| "renderScenes e captions (scene # rest) i w =
     (case renderScene e captions scene i w of
        (Some stop, w1) \<Rightarrow> (Some stop, w1)
      | (None, w1) \<Rightarrow> renderScenes e captions rest (i + 1) w1)"

text \<open>
  After the loop: the list file, the concatenation under its deadline, the output read
  back. Awaiting \<open>withTimeout\<close> is decided by what comes first.
\<close>

definition ASSEMBLE_VIDEO_TIMEOUT_MS :: rat where
  "ASSEMBLE_VIDEO_TIMEOUT_MS = 300000"

definition concatSegments :: "env \<Rightarrow> world \<Rightarrow> (exn + response) \<times> world" where
  "concatSegments e w =
     (let w1 = writeFileSync (str ''list.txt'') w
      in case concatRace e of
           TimerFires \<Rightarrow> (Inl (TimedOut (str ''Video assembly timed out'')), w1)
         | InnerRejects err \<Rightarrow> (Inl (FfmpegError err), w1)
         | InnerResolves u \<Rightarrow> (Inr Video, w1\<lparr>files := addFile (str ''output.mp4'') (files w1)\<rparr>))"

text \<open>The \<open>try\<close> block.\<close>

definition assembleBody :: "env \<Rightarrow> request \<Rightarrow> world \<Rightarrow> (exn + response) \<times> world" where
  "assembleBody e request w =
     (case body request of
        None \<Rightarrow> (Inl SyntaxError, w)
      | Some j \<Rightarrow>
          (case parseAssembleBody j of
             None \<Rightarrow> (Inr ValidationErrors, w)
           | Some (scenes, captions) \<Rightarrow>
               (case renderScenes e captions scenes 0 w of
                  (Some stop, w1) \<Rightarrow> (stop, w1)
                | (None, w1) \<Rightarrow> concatSegments e w1)))"

text \<open>From \<open>mkdirSync\<close> to the \<open>finally\<close> block.\<close>

definition assembleInTmpDir :: "env \<Rightarrow> request \<Rightarrow> world \<Rightarrow> (exn + response) \<times> world" where
  "assembleInTmpDir e request w =
     (let (r, w1) = assembleBody e request (mkdirSync w) in (r, cleanup w1))"

definition oversize :: "request \<Rightarrow> bool" where
  "oversize request =
     (case contentLength request of
        None \<Rightarrow> False
      | Some cl \<Rightarrow>
          cl \<noteq> [] \<and> (case parseInt10 cl of None \<Rightarrow> False | Some n \<Rightarrow> n > MAX_ASSEMBLE_BODY_BYTES))"

definition handleAssembleVideo :: "env \<Rightarrow> request \<Rightarrow> world \<Rightarrow> (exn + response) \<times> world" where
  "handleAssembleVideo e request w =
     (if oversize request
      then (Inr (ApiError 413 (str ''Request body too large'') (str ''BAD_REQUEST'')), w)
      else assembleInTmpDir e request w)"

text \<open>The shape of a scene that the checks at the head of the loop ask for.\<close>

definition wellFormed :: "sceneAsset \<Rightarrow> bool" where
  "wellFormed scene \<longleftrightarrow>
     (truthy (imageBase64 scene) \<or> truthy (videoBase64 scene))
     \<and> \<not> (truthy (imageBase64 scene) \<and> truthy (videoBase64 scene))
     \<and> audioBase64 scene \<noteq> [] \<and> 0 < durationSeconds scene"

text \<open>Sample surroundings and requests.\<close>

definition idleEnv :: env where
  "idleEnv = \<lparr>ffmpegSegment = (\<lambda>i c. None), concatRace = InnerResolves (), printNumber = (\<lambda>x. [])\<rparr>"

definition emptyWorld :: world where
  "emptyWorld = \<lparr>dirExists = False, files = [], fsOps = [], ffmpegRuns = []\<rparr>"

definition sampleSceneJson :: json where
  "sampleSceneJson =
     JObj [(str ''sceneIndex'', JNum 0), (str ''imageBase64'', JStr (str ''aW1n'')),
           (str ''audioBase64'', JStr (str ''YXVk'')), (str ''durationSeconds'', JNum 6),
           (str ''narration'', JStr (str ''Check the horn.''))]"

definition sampleScene :: sceneAsset where
  "sampleScene =
     \<lparr>sceneIndex = 0, imageBase64 = Some (str ''aW1n''), videoBase64 = None,
      audioBase64 = str ''YXVk'', durationSeconds = 6,
      narration = Some (str ''Check the horn.'')\<rparr>"

definition elevenScenes :: request where
  "elevenScenes =
     \<lparr>contentLength = None,
      body = Some (JObj [(str ''scenes'', JArr (replicate 11 sampleSceneJson))])\<rparr>"


section \<open>Properties of the rounding to a double\<close>

subsection \<open>Powers of two\<close>






lemma pow2_nat: "pow2 (int n) = 2 ^ n"
  by (simp add: pow2_def)



subsection \<open>The binary exponent\<close>




subsection \<open>Rounding to the nearest integer, ties to even\<close>






subsection \<open>Rounding to a double\<close>

lemma toDouble_zero [simp]: "toDouble 0 = 0"
  by (simp add: toDouble_def)












subsection \<open>The error of one rounding\<close>




section \<open>Properties of the caption segmenter\<close>

subsection \<open>Word counts and the timing loop\<close>













subsection \<open>Length of the segments\<close>

lemma length_trim_le: "length (trim s) \<le> length s"
proof -
  have "length (trim s) \<le> length (dropWhile isWhiteSpace s)"
    unfolding trim_def using length_dropWhile_le [of isWhiteSpace "rev (dropWhile isWhiteSpace s)"]
    by simp
  also have "\<dots> \<le> length s" by (rule length_dropWhile_le)
  finally show ?thesis .
qed

lemma set_trim_subset: "set (trim s) \<subseteq> set s"
  unfolding trim_def by (auto dest!: set_dropWhileD)

lemma splitSpace_ne: "splitSpace s \<noteq> []"
  by (induction s) (auto simp: Let_def)

lemma splitSpace_no_space: "w \<in> set (splitSpace s) \<Longrightarrow> space \<notin> set w"
proof (induction s arbitrary: w)
  case Nil
  then show ?case by simp
next
  case (Cons c cs)
  show ?case
  proof (cases "c = space")
    case True
    with Cons show ?thesis by auto
  next
    case False
    obtain p ps where r: "splitSpace cs = p # ps"
      using splitSpace_ne [of cs] by (cases "splitSpace cs") auto
    with Cons.prems False have "w = c # p \<or> w \<in> set ps" by (simp add: Let_def)
    with Cons.IH r False show ?thesis by auto
  qed
qed

lemma packWords_bound:
  assumes "\<forall>w \<in> set ws. space \<notin> set w"
    and "\<forall>s \<in> set segs. length s \<le> maxc \<or> space \<notin> set s"
    and "length cur \<le> maxc \<or> space \<notin> set cur"
  shows "\<forall>s \<in> set (packWords maxc ws cur segs). length s \<le> maxc \<or> space \<notin> set s"
  using assms
proof (induction ws arbitrary: cur segs)
  case Nil
  have "length (trim cur) \<le> maxc \<or> space \<notin> set (trim cur)"
    using Nil(3) length_trim_le [of cur] set_trim_subset [of cur] by auto
  with Nil(2) show ?case by auto
next
  case (Cons w ws)
  have t: "length (trim cur) \<le> maxc \<or> space \<notin> set (trim cur)"
    using Cons.prems(3) length_trim_le [of cur] set_trim_subset [of cur] by auto
  have ws: "\<forall>w \<in> set ws. space \<notin> set w" and w: "space \<notin> set w"
    using Cons.prems(1) by auto
  show ?case
  proof (cases "length cur + length w + 1 \<le> maxc")
    case True
    have "length (if cur \<noteq> [] then cur @ [space] @ w else w) \<le> maxc"
      using True by auto
    then have "\<forall>s \<in> set (packWords maxc ws (if cur \<noteq> [] then cur @ [space] @ w else w) segs).
        length s \<le> maxc \<or> space \<notin> set s"
      using Cons.IH [OF ws Cons.prems(2)] by blast
    with True show ?thesis by simp
  next
    case False
    have "\<forall>s \<in> set (if cur \<noteq> [] then segs @ [trim cur] else segs).
        length s \<le> maxc \<or> space \<notin> set s"
      using Cons.prems(2) t by auto
    then have "\<forall>s \<in> set (packWords maxc ws w (if cur \<noteq> [] then segs @ [trim cur] else segs)).
        length s \<le> maxc \<or> space \<notin> set s"
      using Cons.IH [OF ws _ disjI2 [OF w]] by blast
    with False show ?thesis by simp
  qed
qed

lemma processSentences_bound:
  "\<forall>s \<in> set segs. length s \<le> maxc \<or> space \<notin> set s \<Longrightarrow>
   \<forall>s \<in> set (processSentences maxc ss segs). length s \<le> maxc \<or> space \<notin> set s"
proof (induction ss arbitrary: segs)
  case Nil
  then show ?case by simp
next
  case (Cons x ss)
  have "\<forall>s \<in> set (if length x \<le> maxc then segs @ [trim x]
            else packWords maxc (splitSpace x) [] segs). length s \<le> maxc \<or> space \<notin> set s"
  proof (cases "length x \<le> maxc")
    case True
    then have "length (trim x) \<le> maxc" using length_trim_le [of x] by simp
    with True Cons.prems show ?thesis by auto
  next
    case False
    have "\<forall>s \<in> set (packWords maxc (splitSpace x) [] segs). length s \<le> maxc \<or> space \<notin> set s"
      by (rule packWords_bound) (use Cons.prems splitSpace_no_space in auto)
    with False show ?thesis by simp
  qed
  from Cons.IH [OF this] show ?case by simp
qed

lemma segmentsOf_bound:
  "\<forall>s \<in> set (segmentsOf maxc cap). length s \<le> maxc \<or> space \<notin> set s"
proof -
  have a: "\<forall>s \<in> set (processSentences maxc ss []). length s \<le> maxc \<or> space \<notin> set s" for ss
    by (rule processSentences_bound) simp
  have b: "\<forall>s \<in> set (packWords maxc (splitSpace cap) [] []). length s \<le> maxc \<or> space \<notin> set s"
    by (rule packWords_bound) (use splitSpace_no_space in auto)
  show ?thesis
    unfolding segmentsOf_def Let_def using a b by (simp del: length_0_conv)
qed

subsection \<open>Evaluation at the scenarios\<close>

lemma horn_caption:
  "captionText (Some (str ''Check the horn. Then look left and right before moving.''))
     = str ''Check the horn. Then look left and right before moving.''"
  by (simp add: captionText_def str_def trim_def isWhiteSpace_def space_def MAX_CAPTION_LENGTH_def)

lemma horn_segments:
  "segments (str ''Check the horn. Then look left and right before moving.'')
     = [str ''Check the horn.'', str ''Then look left and right before moving.'']"
  by (simp add: segments_def segmentsOf_def str_def isSentenceEnd_def isWhiteSpace_def trim_def
      maxCharsPerSegment_def)

lemma horn_wordCounts:
  "wordCounts [str ''Check the horn.'', str ''Then look left and right before moving.''] = [3, 7]"
  by (simp add: wordCounts_def str_def space_def)

lemma horn_totalWords:
  "totalWords [str ''Check the horn.'', str ''Then look left and right before moving.''] = 10"
  by (simp add: totalWords_def horn_wordCounts)

lemma effectiveDuration_9: "effectiveDuration 9 = 9"
  by (simp add: effectiveDuration_def MIN_SCENE_DURATION_def)


lemma timing_3_7_exact:
  "timingLoop exact 9 10 [3, 7] 0
     = [\<lparr>segStart = 0, segEnd = 27 / 10\<rparr>, \<lparr>segStart = 27 / 10, segEnd = 9\<rparr>]"
  by code_simp

lemma timing_3_7_double:
  "map enableWindow (timingLoop toDouble 9 10 [3, 7] 0)
     = [(str ''0.00'', str ''2.70''), (str ''2.70'', str ''9.00'')]"
  by code_simp







lemma horn_timings_exact:
  "segmentTimings exact (effectiveDuration 9)
      [str ''Check the horn.'', str ''Then look left and right before moving.'']
     = [\<lparr>segStart = 0, segEnd = 27 / 10\<rparr>, \<lparr>segStart = 27 / 10, segEnd = 9\<rparr>]"
  by (simp only: segmentTimings_def horn_wordCounts horn_totalWords effectiveDuration_9
      timing_3_7_exact)

lemma horn_windows_double:
  "map enableWindow (segmentTimings toDouble (effectiveDuration 9)
      [str ''Check the horn.'', str ''Then look left and right before moving.''])
     = [(str ''0.00'', str ''2.70''), (str ''2.70'', str ''9.00'')]"
  by (simp only: segmentTimings_def horn_wordCounts horn_totalWords effectiveDuration_9
      timing_3_7_double)

text \<open>Two known doubles: the nearest to one third and to one tenth.\<close>

lemma toDouble_third: "toDouble (1 / 3) = 6004799503160661 / 2 ^ 54"
  by code_simp

lemma toDouble_tenth: "toDouble (1 / 10) = 3602879701896397 / 2 ^ 55"
  by code_simp

lemma mask_caption:
  "captionText (Some (str ''Avoid pneumonoultramicroscopicsilicovolcanoconiosis.''))
     = str ''Avoid pneumonoultramicroscopicsilicovolcanoconiosis.''"
  by (simp add: captionText_def str_def trim_def isWhiteSpace_def space_def MAX_CAPTION_LENGTH_def)

lemma mask_segments:
  "segments (str ''Avoid pneumonoultramicroscopicsilicovolcanoconiosis.'')
     = [str ''Avoid'', str ''pneumonoultramicroscopicsilicovolcanoconiosis.'']"
  by (simp add: segments_def segmentsOf_def str_def isSentenceEnd_def isWhiteSpace_def trim_def
      maxCharsPerSegment_def space_def)

lemma mask_segments_3:
  "segments (str ''Avoid pneumonoultramicroscopicsilicovolcanoconiosis. Wear a mask.'')
     = [str ''Avoid'', str ''pneumonoultramicroscopicsilicovolcanoconiosis.'', str ''Wear a mask.'']"
  by (simp add: segments_def segmentsOf_def str_def isSentenceEnd_def isWhiteSpace_def trim_def
      maxCharsPerSegment_def space_def)

subsection \<open>The timing loop in double arithmetic\<close>




subsection \<open>The accumulated rounding error of the timing loop\<close>






subsection \<open>Evaluation at two more narrations\<close>

lemma effectiveDuration_3: "effectiveDuration 3 = 3"
  by (simp add: effectiveDuration_def MIN_SCENE_DURATION_def)

lemma mirrors_caption:
  "captionText (Some (str ''Stop. Look around. Then check both mirrors.''))
     = str ''Stop. Look around. Then check both mirrors.''"
  by (simp add: captionText_def str_def trim_def isWhiteSpace_def space_def MAX_CAPTION_LENGTH_def)

lemma mirrors_segments:
  "segments (str ''Stop. Look around. Then check both mirrors.'')
     = [str ''Stop.'', str ''Look around.'', str ''Then check both mirrors.'']"
  by (simp add: segments_def segmentsOf_def str_def isSentenceEnd_def isWhiteSpace_def trim_def
      maxCharsPerSegment_def)

lemma mirrors_wordCounts:
  "wordCounts [str ''Stop.'', str ''Look around.'', str ''Then check both mirrors.''] = [1, 2, 4]"
  by (simp add: wordCounts_def str_def space_def)

lemma mirrors_totalWords:
  "totalWords [str ''Stop.'', str ''Look around.'', str ''Then check both mirrors.''] = 7"
  by (simp add: totalWords_def mirrors_wordCounts)

lemma timing_1_2_4_double:
  "timingLoop toDouble 3 7 [1, 2, 4] 0
     = [\<lparr>segStart = 0, segEnd = 7720456504063707 / 2 ^ 54\<rparr>,
        \<lparr>segStart = 7720456504063707 / 2 ^ 54, segEnd = 1447585594511945 / 2 ^ 50\<rparr>,
        \<lparr>segStart = 1447585594511945 / 2 ^ 50, segEnd = 3\<rparr>]"
  by code_simp

lemma mirrors_timings_double:
  "segmentTimings toDouble (effectiveDuration 3)
      (segments (captionText (Some (str ''Stop. Look around. Then check both mirrors.''))))
     = [\<lparr>segStart = 0, segEnd = 7720456504063707 / 2 ^ 54\<rparr>,
        \<lparr>segStart = 7720456504063707 / 2 ^ 54, segEnd = 1447585594511945 / 2 ^ 50\<rparr>,
        \<lparr>segStart = 1447585594511945 / 2 ^ 50, segEnd = 3\<rparr>]"
  by (simp only: mirrors_caption mirrors_segments segmentTimings_def mirrors_wordCounts
      mirrors_totalWords effectiveDuration_3 timing_1_2_4_double)

lemma check_segments:
  "segments (str ''Stop. Then check both mirrors.'')
     = [str ''Stop.'', str ''Then check both mirrors.'']"
  by (simp add: segments_def segmentsOf_def str_def isSentenceEnd_def isWhiteSpace_def trim_def
      maxCharsPerSegment_def)

lemma check_wordCounts:
  "wordCounts [str ''Stop.'', str ''Then check both mirrors.''] = [1, 4]"
  by (simp add: wordCounts_def str_def space_def)

lemma check_totalWords:
  "totalWords [str ''Stop.'', str ''Then check both mirrors.''] = 5"
  by (simp add: totalWords_def check_wordCounts)

lemma timing_1_4_double:
  "timingLoop toDouble 3 5 [1, 4] 0
     = [\<lparr>segStart = 0, segEnd = 1351079888211149 / 2 ^ 51\<rparr>,
        \<lparr>segStart = 1351079888211149 / 2 ^ 51, segEnd = 3 + 1 / 2 ^ 51\<rparr>]"
  by code_simp

section \<open>The claims about captions\<close>




text \<open>
  The window that is emitted is \<open>[start, end)\<close> with \<open>end\<close> the rounded sum, so its length
  is the duration of the loop only up to rounding: with word counts 1, 2 and 4 over 3
  seconds, the second window is not twice as long as the first.
\<close>

lemma window_lengths_not_doubled:
  "wordCounts (segments (captionText (Some (str ''Stop. Look around. Then check both mirrors.''))))
     = [1, 2, 4]
   \<and> (let ts = segmentTimings toDouble (effectiveDuration 3)
          (segments (captionText (Some (str ''Stop. Look around. Then check both mirrors.''))))
      in segEnd (ts ! 1) - segStart (ts ! 1) \<noteq> 2 * (segEnd (ts ! 0) - segStart (ts ! 0)))"
proof -
  have w: "wordCounts (segments (captionText (Some (str ''Stop. Look around. Then check both mirrors.''))))
     = [1, 2, 4]"
    by (simp only: mirrors_caption mirrors_segments mirrors_wordCounts)
  show ?thesis
    unfolding Let_def by (simp only: w mirrors_timings_double) simp
qed

text \<open>
  The last end can also lie above the duration: with word counts 1 and 4 over 3 seconds it
  is \<open>3 + 2\<^sup>-\<^sup>5\<^sup>1\<close>.
\<close>

lemma last_end_above_duration:
  "segEnd (last (segmentTimings toDouble (effectiveDuration 3)
        (segments (str ''Stop. Then check both mirrors.'')))) = 3 + 1 / 2 ^ 51"
  by (simp only: check_segments segmentTimings_def check_wordCounts check_totalWords
      effectiveDuration_3 timing_1_4_double) simp

text \<open>
  C3, as the code has it. The narration \<open>Check the horn. Then look left and right before
  moving.\<close> is its own caption text and gives exactly two segments, of 3 and 7 words. Over
  a scene of 9 seconds the timings are \<open>[0, 2.7)\<close> and \<open>[2.7, 9)\<close>, and the drawtext
  windows are printed \<open>0.00,2.70\<close> and \<open>2.70,9.00\<close>.
\<close>

theorem horn_scenario_timings:
  "captionText (Some (str ''Check the horn. Then look left and right before moving.''))
     = str ''Check the horn. Then look left and right before moving.''
   \<and> segments (str ''Check the horn. Then look left and right before moving.'')
     = [str ''Check the horn.'', str ''Then look left and right before moving.'']
   \<and> wordCounts [str ''Check the horn.'', str ''Then look left and right before moving.''] = [3, 7]
   \<and> segmentTimings exact (effectiveDuration 9)
        [str ''Check the horn.'', str ''Then look left and right before moving.'']
     = [\<lparr>segStart = 0, segEnd = 27 / 10\<rparr>, \<lparr>segStart = 27 / 10, segEnd = 9\<rparr>]
   \<and> map enableWindow (segmentTimings toDouble (effectiveDuration 9)
        [str ''Check the horn.'', str ''Then look left and right before moving.''])
     = [(str ''0.00'', str ''2.70''), (str ''2.70'', str ''9.00'')]"
  by (simp only: horn_caption horn_segments horn_wordCounts horn_timings_exact
      horn_windows_double simp_thms)

text \<open>
  C3 as stated fails: the second sentence has 7 words, not 6, so the first segment does not
  end at 3 seconds, neither in exact arithmetic nor as the window is printed.
\<close>

theorem horn_scenario_counterexample:
  "segmentTimings exact (effectiveDuration 9)
      (segments (captionText (Some (str ''Check the horn. Then look left and right before moving.''))))
     \<noteq> [\<lparr>segStart = 0, segEnd = 3\<rparr>, \<lparr>segStart = 3, segEnd = 9\<rparr>]
   \<and> map enableWindow (segmentTimings toDouble (effectiveDuration 9)
      (segments (captionText (Some (str ''Check the horn. Then look left and right before moving.'')))))
     \<noteq> [(str ''0.00'', str ''3.00''), (str ''3.00'', str ''9.00'')]"
proof -
  have "str ''2.70'' \<noteq> str ''3.00''" by (simp add: str_def)
  then show ?thesis
    by (simp add: horn_caption horn_segments horn_timings_exact horn_windows_double)
qed

text \<open>
  C4. The code at the caption \<open>Avoid pneumonoultramicroscopicsilicovolcanoconiosis.\<close>,
  which is its own caption text: the sentence is longer than \<open>maxCharsPerSegment\<close>, so it
  is packed word by word, and its second word, of 46 code units, becomes a segment of its
  own. The comments of the code give 45 as the maximum of a segment.
\<close>

theorem segments_overlong_word:
  "captionText (Some (str ''Avoid pneumonoultramicroscopicsilicovolcanoconiosis.''))
     = str ''Avoid pneumonoultramicroscopicsilicovolcanoconiosis.''
   \<and> segments (str ''Avoid pneumonoultramicroscopicsilicovolcanoconiosis.'')
     = [str ''Avoid'', str ''pneumonoultramicroscopicsilicovolcanoconiosis.'']
   \<and> length (str ''pneumonoultramicroscopicsilicovolcanoconiosis.'') = 46
   \<and> maxCharsPerSegment = 45"
  by (simp add: mask_caption mask_segments) (simp add: str_def maxCharsPerSegment_def)

text \<open>
  What the packing does guarantee: a segment is at most \<open>maxCharsPerSegment\<close> code units
  long, or it contains no space. Lines are broken between words only, so the bound is
  exceeded by single words alone.
\<close>

lemma segments_bound_or_single_word:
  "\<forall>seg \<in> set (segments captionForScene).
     length seg \<le> maxCharsPerSegment \<or> space \<notin> set seg"
  unfolding segments_def by (rule segmentsOf_bound)

lemma segments_bound_example:
  "segments (str ''Avoid pneumonoultramicroscopicsilicovolcanoconiosis. Wear a mask.'')
     = [str ''Avoid'', str ''pneumonoultramicroscopicsilicovolcanoconiosis.'', str ''Wear a mask.'']
   \<and> length (str ''Wear a mask.'') \<le> maxCharsPerSegment
   \<and> space \<notin> set (str ''pneumonoultramicroscopicsilicovolcanoconiosis.'')"
proof -
  have l: "\<not> length (str ''pneumonoultramicroscopicsilicovolcanoconiosis.'') \<le> maxCharsPerSegment"
    by (simp add: str_def maxCharsPerSegment_def)
  have w: "length (str ''Wear a mask.'') \<le> maxCharsPerSegment"
    by (simp add: str_def maxCharsPerSegment_def)
  from segments_bound_or_single_word
    [of "str ''Avoid pneumonoultramicroscopicsilicovolcanoconiosis. Wear a mask.''"] l
  have "space \<notin> set (str ''pneumonoultramicroscopicsilicovolcanoconiosis.'')"
    unfolding mask_segments_3 by simp
  with mask_segments_3 w show ?thesis by simp
qed

section \<open>Properties of the retry loop\<close>

declare retryLoop.simps [simp del]

lemma retryLoop_success:
  "i + k < n \<Longrightarrow> fn (i + k) = Inr v \<Longrightarrow> (\<forall>j. i \<le> j \<and> j < i + k \<longrightarrow> isl (fn j)) \<Longrightarrow>
   retryLoop fn n ms i lastErr = (Inr v, attemptsFrom ms i k)"
proof (induction k arbitrary: i lastErr)
  case 0
  then show ?case by (simp add: retryLoop.simps [of fn n ms i])
next
  case (Suc k)
  from Suc.prems have "isl (fn i)" by simp
  then obtain e where e: "fn i = Inl e" by (cases "fn i") auto
  have "retryLoop fn n ms (Suc i) (Some e) = (Inr v, attemptsFrom ms (Suc i) k)"
    by (rule Suc.IH) (use Suc.prems in auto)
  with e Suc.prems show ?case
    by (simp add: retryLoop.simps [of fn n ms i])
qed

lemma retryLoop_exhausted:
  "i + k = n - 1 \<Longrightarrow> 0 < n \<Longrightarrow> (\<forall>j. i \<le> j \<and> j < n \<longrightarrow> isl (fn j)) \<Longrightarrow>
   retryLoop fn n ms i lastErr = (Inl (Some (projl (fn (n - 1)))), attemptsFrom ms i k)"
proof (induction k arbitrary: i lastErr)
  case 0
  then have "isl (fn i)" "i = n - 1" "i < n" by auto
  then obtain e where "fn i = Inl e" by (cases "fn i") auto
  with \<open>i = n - 1\<close> \<open>i < n\<close> show ?case by (subst retryLoop.simps) simp
next
  case (Suc k)
  from Suc.prems have "isl (fn i)" by simp
  then obtain e where e: "fn i = Inl e" by (cases "fn i") auto
  have "retryLoop fn n ms (Suc i) (Some e)
      = (Inl (Some (projl (fn (n - 1)))), attemptsFrom ms (Suc i) k)"
    by (rule Suc.IH) (use Suc.prems in auto)
  with e Suc.prems show ?case
    by (simp add: retryLoop.simps [of fn n ms i])
qed

lemma invocations_attemptsFrom: "invocations (attemptsFrom ms i k) = Suc k"
  by (induction k arbitrary: i) (auto simp: invocations_def)

lemma retryLoop_invocations: "invocations (snd (retryLoop fn n ms i lastErr)) \<le> n - i"
proof (induction fn n ms i lastErr rule: retryLoop.induct)
  case (1 fn n ms i lastErr)
  show ?case
  proof (cases "i < n")
    case False
    then show ?thesis by (simp add: retryLoop.simps [of fn n ms i] invocations_def)
  next
    case True
    show ?thesis
    proof (cases "fn i")
      case (Inr v)
      with True show ?thesis by (simp add: retryLoop.simps [of fn n ms i] invocations_def)
    next
      case (Inl e)
      show ?thesis
      proof (cases "i = n - 1")
        case True
        with Inl \<open>i < n\<close> show ?thesis by (subst retryLoop.simps) (simp add: invocations_def)
      next
        case False
        from "1.IH" [OF True Inl False refl]
        have "invocations (snd (retryLoop fn n ms (i + 1) (Some e))) \<le> n - (i + 1)" .
        moreover obtain r evs where r: "retryLoop fn n ms (i + 1) (Some e) = (r, evs)"
          by (cases "retryLoop fn n ms (i + 1) (Some e)")
        ultimately have "invocations evs \<le> n - (i + 1)" by simp
        with Inl True False r show ?thesis
          by (simp add: retryLoop.simps [of fn n ms i] invocations_def)
      qed
    qed
  qed
qed

lemma attemptsFrom_length: "length (attemptsFrom ms i k) = 2 * k + 1"
  by (induction k arbitrary: i) auto

lemma attemptsFrom_invoke: "j \<le> k \<Longrightarrow> attemptsFrom ms i k ! (2 * j) = Invoke (i + j)"
proof (induction k arbitrary: i j)
  case 0
  then show ?case by simp
next
  case (Suc k)
  show ?case
  proof (cases j)
    case 0
    then show ?thesis by simp
  next
    case (Suc j')
    with Suc.prems have "j' \<le> k" by simp
    from Suc.IH [OF this, of "Suc i"] Suc show ?thesis by simp
  qed
qed

lemma attemptsFrom_sleep: "j < k \<Longrightarrow> attemptsFrom ms i k ! (2 * j + 1) = Sleep (ms * 2 ^ (i + j))"
proof (induction k arbitrary: i j)
  case 0
  then show ?case by simp
next
  case (Suc k)
  show ?case
  proof (cases j)
    case 0
    then show ?thesis by simp
  next
    case (Suc j')
    with Suc.prems have "j' < k" by simp
    from Suc.IH [OF this, of "Suc i"] Suc show ?thesis by simp
  qed
qed

text \<open>
  C8. With \<open>n\<close> the attempts (3 when not given) and \<open>ms\<close> the initial delay (1000
  when not given): \<open>fn\<close> is called at most \<open>n\<close> times; when call \<open>k < n\<close> is the first
  to succeed, its value is returned after exactly the calls \<open>0, \<dots>, k\<close>, with a wait of
  \<open>ms * 2 ^ j\<close> after the failure of call \<open>j\<close>; when all \<open>n\<close> calls fail, what is
  thrown is the error of the last call, after the same calls and waits and with no wait
  after the last failure.
\<close>

theorem withRetry_behaviour:
  fixes fn :: "nat \<Rightarrow> 'e + 'a" and options :: retryOptions
  defines "n \<equiv> (case attempts options of None \<Rightarrow> 3 | Some a \<Rightarrow> a)"
    and "ms \<equiv> (case initialMs options of None \<Rightarrow> 1000 | Some m \<Rightarrow> m)"
  shows "invocations (snd (withRetry fn options)) \<le> n
    \<and> (\<forall>k v. k < n \<and> fn k = Inr v \<and> (\<forall>j < k. isl (fn j)) \<longrightarrow>
          withRetry fn options = (Inr v, attemptsFrom ms 0 k))
    \<and> (0 < n \<and> (\<forall>j < n. isl (fn j)) \<longrightarrow>
          withRetry fn options = (Inl (Some (projl (fn (n - 1)))), attemptsFrom ms 0 (n - 1)))
    \<and> (\<forall>k. invocations (attemptsFrom ms 0 k) = k + 1
          \<and> (\<forall>j \<le> k. attemptsFrom ms 0 k ! (2 * j) = Invoke j)
          \<and> (\<forall>j < k. attemptsFrom ms 0 k ! (2 * j + 1) = Sleep (ms * 2 ^ j)))"
proof -
  have w: "withRetry fn options = retryLoop fn n ms 0 None"
    by (simp add: withRetry_def n_def ms_def DEFAULT_ATTEMPTS_def INITIAL_MS_def
        split: option.split)
  have 1: "invocations (snd (withRetry fn options)) \<le> n"
    using retryLoop_invocations [of fn n ms 0 None] by (simp add: w)
  have 2: "withRetry fn options = (Inr v, attemptsFrom ms 0 k)"
    if "k < n \<and> fn k = Inr v \<and> (\<forall>j < k. isl (fn j))" for k v
    using that retryLoop_success [of 0 k n fn v ms None] by (simp add: w)
  have 3: "withRetry fn options = (Inl (Some (projl (fn (n - 1)))), attemptsFrom ms 0 (n - 1))"
    if "0 < n \<and> (\<forall>j < n. isl (fn j))"
    using that retryLoop_exhausted [of 0 "n - 1" n fn ms None] by (simp add: w)
  have 4: "invocations (attemptsFrom ms 0 k) = k + 1
          \<and> (\<forall>j \<le> k. attemptsFrom ms 0 k ! (2 * j) = Invoke j)
          \<and> (\<forall>j < k. attemptsFrom ms 0 k ! (2 * j + 1) = Sleep (ms * 2 ^ j))" for k
    using attemptsFrom_invoke [of _ k ms 0] attemptsFrom_sleep [of _ k ms 0]
    by (simp add: invocations_attemptsFrom)
  from 1 2 3 4 show ?thesis by blast
qed

text \<open>
  The cases of the unit tests: one failure and then 100 with the default options; an
  operation that always fails, with 3 attempts and 5 ms.
\<close>

theorem withRetry_behaviour_witness:
  "withRetry (\<lambda>i. if i < 1 then Inl ''fail'' else Inr (100 :: nat))
      \<lparr>attempts = None, initialMs = None\<rparr>
     = (Inr 100, [Invoke 0, Sleep 1000, Invoke 1])
   \<and> withRetry (\<lambda>i. (Inl ''always fail'' :: string + nat)) \<lparr>attempts = Some 3, initialMs = Some 5\<rparr>
     = (Inl (Some ''always fail''), [Invoke 0, Sleep 5, Invoke 1, Sleep 10, Invoke 2])"
proof -
  let ?f = "\<lambda>i::nat. if i < 1 then Inl ''fail'' else (Inr (100 :: nat) :: string + nat)"
  let ?g = "\<lambda>i::nat. (Inl ''always fail'' :: string + nat)"
  note f = withRetry_behaviour [of ?f "\<lparr>attempts = None, initialMs = None\<rparr>",
      THEN conjunct2, THEN conjunct1, rule_format, of 1 100]
  note g = withRetry_behaviour [of ?g "\<lparr>attempts = Some 3, initialMs = Some 5\<rparr>",
      THEN conjunct2, THEN conjunct2, THEN conjunct1]
  have "withRetry ?f \<lparr>attempts = None, initialMs = None\<rparr> = (Inr 100, attemptsFrom 1000 0 1)"
    using f by simp
  moreover have "withRetry ?g \<lparr>attempts = Some 3, initialMs = Some 5\<rparr>
      = (Inl (Some ''always fail''), attemptsFrom 5 0 2)"
    using g by simp
  ultimately show ?thesis by (simp add: numeral_2_eq_2)
qed

section \<open>Properties of the deadline\<close>

lemma outer_settled_step:
  "outer st \<noteq> Pending \<Longrightarrow> outer (timeoutStep m st ev) = outer st"
  by (auto simp: timeoutStep_def resolve_def reject_def clearTimeout_def
      split: timeoutEvent.splits timer.splits)

lemma outer_settled_foldl:
  "outer st \<noteq> Pending \<Longrightarrow> outer (foldl (timeoutStep m) st evs) = outer st"
  by (induction evs arbitrary: st) (auto simp: outer_settled_step)

lemma inner_settled_step:
  "inner st \<noteq> Pending \<Longrightarrow> inner (timeoutStep m st ev) = inner st"
  by (auto simp: timeoutStep_def resolve_def reject_def clearTimeout_def
      split: timeoutEvent.splits timer.splits)

lemma inner_settled_foldl:
  "inner st \<noteq> Pending \<Longrightarrow> inner (foldl (timeoutStep m) st evs) = inner st"
  by (induction evs arbitrary: st) (auto simp: inner_settled_step)

text \<open>
  C9. Nothing happens: the returned promise stays pending. The timer fires before the
  wrapped promise settles: the returned promise is rejected with the error made from the
  message, whatever happens later. The wrapped promise settles first: the returned promise
  takes its value or its reason, whatever happens later, and the timer is cleared. After
  the timer has fired the wrapped promise is still pending, and it settles as it would
  have without the deadline.
\<close>

theorem withTimeout_race:
  fixes evs :: "('v, 'e) timeoutEvent list"
  defines "m \<equiv> (\<lambda>message. case message of None \<Rightarrow> str ''Request timed out'' | Some t \<Rightarrow> t)"
  shows "outer (withTimeout ms message ([] :: ('v, 'e) timeoutEvent list)) = Pending
    \<and> outer (withTimeout ms message (TimerFires # evs)) = Rejected (TimeoutError (m message))
    \<and> outer (withTimeout ms message (InnerResolves v # evs)) = Resolved v
    \<and> outer (withTimeout ms message (InnerRejects e # evs)) = Rejected (Reason e)
    \<and> inner (withTimeout ms message [TimerFires :: ('v, 'e) timeoutEvent]) = Pending
    \<and> inner (withTimeout ms message (TimerFires # InnerResolves v # evs)) = Resolved v
    \<and> inner (withTimeout ms message (TimerFires # InnerRejects e # evs)) = Rejected e
    \<and> timer (withTimeout ms message (InnerResolves v # evs)) = Cleared
    \<and> timer (withTimeout ms message (InnerRejects e # evs)) = Cleared"
proof -
  have t: "timer st = Cleared \<Longrightarrow> inner st \<noteq> Pending \<Longrightarrow>
      timer (foldl (timeoutStep x) st es) = Cleared" for st :: "('v, 'e) timeoutState" and x es
  proof (induction es arbitrary: st)
    case Nil
    then show ?case by simp
  next
    case (Cons a es)
    have "timeoutStep x st a = st"
      using Cons.prems by (auto simp: timeoutStep_def split: timeoutEvent.splits)
    with Cons show ?case by simp
  qed
  show ?thesis
    unfolding withTimeout_def m_def
    by (simp add: outer_settled_foldl inner_settled_foldl t timeoutStep_def resolve_def
        reject_def clearTimeout_def)
qed

text \<open>With one event the returned promise is settled by it.\<close>

lemma withTimeout_first_event:
  "outer (withTimeout ms (Some m) [ev]) =
     (case ev of
        TimerFires \<Rightarrow> Rejected (TimeoutError m)
      | InnerResolves v \<Rightarrow> Resolved v
      | InnerRejects err \<Rightarrow> Rejected (Reason err))"
  by (simp add: withTimeout_def timeoutStep_def resolve_def reject_def clearTimeout_def
      split: timeoutEvent.splits)

section \<open>Properties of the worker pool\<close>

lemma length_workers_advance [simp]:
  "length (workers (advance fn items st w)) = length (workers st)"
  by (auto simp: advance_def split: worker.splits sum.splits)

lemma poolInv_init: "poolInv fn items (initPool c items)"
  by (auto simp: poolInv_def initPool_def)

lemma poolInv_advance:
  assumes inv: "poolInv fn items st"
  shows "poolInv fn items (advance fn items st w)"
proof (cases "w < length (workers st)")
  case False
  then show ?thesis using inv by (simp add: advance_def)
next
  case w: True
  note I = inv [unfolded poolInv_def]
  show ?thesis
  proof (cases "workers st ! w")
    case AtLoopTest
    show ?thesis
    proof (cases "nextIndex st < length items")
      case True
      let ?st = "st\<lparr>nextIndex := nextIndex st + 1,
                      workers := (workers st)[w := Awaiting (nextIndex st)]\<rparr>"
      have adv: "advance fn items st w = ?st"
        using w AtLoopTest True by (simp add: advance_def)
      have a: "\<forall>v < length (workers ?st). \<forall>i. workers ?st ! v = Awaiting i \<longrightarrow> i < nextIndex ?st"
        using I w by (auto simp: nth_list_update less_Suc_eq)
      have b: "(\<exists>r. results ?st ! i = Some r \<and> fn (items ! i) i = Inr r) \<or>
          (\<exists>v < length (workers ?st). workers ?st ! v = Awaiting i) \<or>
          (\<exists>v < length (workers ?st). \<exists>e. workers ?st ! v = Threw e)" if "i < nextIndex ?st" for i
      proof (cases "i = nextIndex st")
        case True
        then show ?thesis using w by (auto simp: nth_list_update)
      next
        case False
        with that have "i < nextIndex st" by simp
        with I have "(\<exists>r. results st ! i = Some r \<and> fn (items ! i) i = Inr r) \<or>
          (\<exists>v < length (workers st). workers st ! v = Awaiting i) \<or>
          (\<exists>v < length (workers st). \<exists>e. workers st ! v = Threw e)" by blast
        then show ?thesis
        proof (elim disjE exE conjE)
          fix r assume "results st ! i = Some r" "fn (items ! i) i = Inr r"
          then show ?thesis by simp
        next
          fix v assume v: "v < length (workers st)" "workers st ! v = Awaiting i"
          with AtLoopTest have "v \<noteq> w" by auto
          with v show ?thesis by (auto simp: nth_list_update)
        next
          fix v e assume v: "v < length (workers st)" "workers st ! v = Threw e"
          with AtLoopTest have "v \<noteq> w" by auto
          with v show ?thesis by (auto simp: nth_list_update)
        qed
      qed
      have c: "(\<exists>v < length (workers ?st). workers ?st ! v = Returned) \<longrightarrow>
          nextIndex ?st = length items"
      proof
        assume "\<exists>v < length (workers ?st). workers ?st ! v = Returned"
        then obtain v where "v < length (workers st)" "workers st ! v = Returned"
          using w by (auto simp: nth_list_update split: if_splits)
        with I have "nextIndex st = length items" by blast
        with True show "nextIndex ?st = length items" by simp
      qed
      have d: "\<forall>v < length (workers ?st). \<forall>e. workers ?st ! v = Threw e \<longrightarrow>
          (\<exists>i < length items. fn (items ! i) i = Inl e)"
        using I w by (auto simp: nth_list_update split: if_splits)
      from I True a b c d show ?thesis
        unfolding adv poolInv_def by simp
    next
      case False
      let ?st = "st\<lparr>workers := (workers st)[w := Returned]\<rparr>"
      have adv: "advance fn items st w = ?st"
        using w AtLoopTest False by (simp add: advance_def)
      from I False have n: "nextIndex st = length items" by simp
      have a: "\<forall>v < length (workers ?st). \<forall>i. workers ?st ! v = Awaiting i \<longrightarrow> i < nextIndex ?st"
        using I w by (auto simp: nth_list_update split: if_splits)
      have b: "(\<exists>r. results ?st ! i = Some r \<and> fn (items ! i) i = Inr r) \<or>
          (\<exists>v < length (workers ?st). workers ?st ! v = Awaiting i) \<or>
          (\<exists>v < length (workers ?st). \<exists>e. workers ?st ! v = Threw e)" if "i < nextIndex ?st" for i
      proof -
        from that I have "(\<exists>r. results st ! i = Some r \<and> fn (items ! i) i = Inr r) \<or>
          (\<exists>v < length (workers st). workers st ! v = Awaiting i) \<or>
          (\<exists>v < length (workers st). \<exists>e. workers st ! v = Threw e)" by simp
        then show ?thesis
        proof (elim disjE exE conjE)
          fix r assume "results st ! i = Some r" "fn (items ! i) i = Inr r"
          then show ?thesis by simp
        next
          fix v assume v: "v < length (workers st)" "workers st ! v = Awaiting i"
          with AtLoopTest have "v \<noteq> w" by auto
          with v show ?thesis by (auto simp: nth_list_update)
        next
          fix v e assume v: "v < length (workers st)" "workers st ! v = Threw e"
          with AtLoopTest have "v \<noteq> w" by auto
          with v show ?thesis by (auto simp: nth_list_update)
        qed
      qed
      have d: "\<forall>v < length (workers ?st). \<forall>e. workers ?st ! v = Threw e \<longrightarrow>
          (\<exists>i < length items. fn (items ! i) i = Inl e)"
        using I w by (auto simp: nth_list_update split: if_splits)
      from I n a b d show ?thesis
        unfolding adv poolInv_def by simp
    qed
  next
    case (Awaiting k)
    from I w Awaiting have k: "k < nextIndex st" by blast
    with I have kn: "k < length items" by simp
    show ?thesis
    proof (cases "fn (items ! k) k")
      case (Inr r)
      let ?st = "st\<lparr>results := (results st)[k := Some r],
                      workers := (workers st)[w := AtLoopTest]\<rparr>"
      have adv: "advance fn items st w = ?st"
        using w Awaiting Inr by (simp add: advance_def)
      have a: "\<forall>v < length (workers ?st). \<forall>i. workers ?st ! v = Awaiting i \<longrightarrow> i < nextIndex ?st"
        using I w by (auto simp: nth_list_update split: if_splits)
      have b: "(\<exists>r. results ?st ! i = Some r \<and> fn (items ! i) i = Inr r) \<or>
          (\<exists>v < length (workers ?st). workers ?st ! v = Awaiting i) \<or>
          (\<exists>v < length (workers ?st). \<exists>e. workers ?st ! v = Threw e)" if "i < nextIndex ?st" for i
      proof (cases "i = k")
        case True
        with Inr kn I show ?thesis by (simp add: nth_list_update)
      next
        case False
        from that I have "(\<exists>r. results st ! i = Some r \<and> fn (items ! i) i = Inr r) \<or>
          (\<exists>v < length (workers st). workers st ! v = Awaiting i) \<or>
          (\<exists>v < length (workers st). \<exists>e. workers st ! v = Threw e)" by simp
        then show ?thesis
        proof (elim disjE exE conjE)
          fix r' assume "results st ! i = Some r'" "fn (items ! i) i = Inr r'"
          with False show ?thesis by (simp add: nth_list_update)
        next
          fix v assume v: "v < length (workers st)" "workers st ! v = Awaiting i"
          with Awaiting False have "v \<noteq> w" by auto
          with v show ?thesis by (auto simp: nth_list_update)
        next
          fix v e assume v: "v < length (workers st)" "workers st ! v = Threw e"
          with Awaiting have "v \<noteq> w" by auto
          with v show ?thesis by (auto simp: nth_list_update)
        qed
      qed
      have c: "(\<exists>v < length (workers ?st). workers ?st ! v = Returned) \<longrightarrow>
          nextIndex ?st = length items"
        using I w by (auto simp: nth_list_update split: if_splits)
      have d: "\<forall>v < length (workers ?st). \<forall>e. workers ?st ! v = Threw e \<longrightarrow>
          (\<exists>i < length items. fn (items ! i) i = Inl e)"
        using I w by (auto simp: nth_list_update split: if_splits)
      from I a b c d show ?thesis
        unfolding adv poolInv_def by simp
    next
      case (Inl e)
      let ?st = "st\<lparr>workers := (workers st)[w := Threw e]\<rparr>"
      have adv: "advance fn items st w = ?st"
        using w Awaiting Inl by (simp add: advance_def)
      have a: "\<forall>v < length (workers ?st). \<forall>i. workers ?st ! v = Awaiting i \<longrightarrow> i < nextIndex ?st"
        using I w by (auto simp: nth_list_update split: if_splits)
      have b: "(\<exists>r. results ?st ! i = Some r \<and> fn (items ! i) i = Inr r) \<or>
          (\<exists>v < length (workers ?st). workers ?st ! v = Awaiting i) \<or>
          (\<exists>v < length (workers ?st). \<exists>e. workers ?st ! v = Threw e)" if "i < nextIndex ?st" for i
        using w by (auto simp: nth_list_update)
      have c: "(\<exists>v < length (workers ?st). workers ?st ! v = Returned) \<longrightarrow>
          nextIndex ?st = length items"
        using I w by (auto simp: nth_list_update split: if_splits)
      have d: "\<forall>v < length (workers ?st). \<forall>e'. workers ?st ! v = Threw e' \<longrightarrow>
          (\<exists>i < length items. fn (items ! i) i = Inl e')"
        using I w kn Inl by (auto simp: nth_list_update split: if_splits)
      from I a b c d show ?thesis
        unfolding adv poolInv_def by simp
    qed
  next
    case Returned
    then show ?thesis using inv w by (simp add: advance_def)
  next
    case (Threw e)
    then show ?thesis using inv w by (simp add: advance_def)
  qed
qed

lemma poolInv_runPool: "poolInv fn items st \<Longrightarrow> poolInv fn items (runPool fn items sched st)"
  unfolding runPool_def
  by (induction sched arbitrary: st) (auto simp: poolInv_advance)

lemma length_workers_runPool [simp]:
  "length (workers (runPool fn items sched st)) = length (workers st)"
  unfolding runPool_def
  by (induction sched arbitrary: st) auto

lemma poolReturn_results:
  assumes inv: "poolInv fn items st"
    and ret: "poolReturn st = Some rs"
    and ne: "items = [] \<or> workers st \<noteq> []"
  shows "rs = map (\<lambda>out. Some (projr out)) (mapInOrder fn items)
    \<and> (\<forall>out \<in> set (mapInOrder fn items). \<not> isl out)"
proof -
  note I = inv [unfolded poolInv_def]
  from ret have all: "\<forall>w < length (workers st). workers st ! w = Returned"
    and rs: "rs = results st"
    by (auto simp: poolReturn_def list_all_length split: if_splits)
  have n: "nextIndex st = length items"
  proof (cases "items = []")
    case True
    with I show ?thesis by simp
  next
    case False
    with ne have "0 < length (workers st)" by simp
    with all have "\<exists>w < length (workers st). workers st ! w = Returned" by blast
    with I show ?thesis by blast
  qed
  have stored: "\<exists>r. results st ! i = Some r \<and> fn (items ! i) i = Inr r" if "i < length items" for i
  proof -
    from that n I have "(\<exists>r. results st ! i = Some r \<and> fn (items ! i) i = Inr r) \<or>
        (\<exists>w < length (workers st). workers st ! w = Awaiting i) \<or>
        (\<exists>w < length (workers st). \<exists>e. workers st ! w = Threw e)" by simp
    with all show ?thesis by auto
  qed
  have "results st = map (\<lambda>out. Some (projr out)) (mapInOrder fn items)"
  proof (rule nth_equalityI)
    show "length (results st) = length (map (\<lambda>out. Some (projr out)) (mapInOrder fn items))"
      using I by (simp add: mapInOrder_def)
  next
    fix i assume "i < length (results st)"
    with I have i: "i < length items" by simp
    from stored [OF i] i
    show "results st ! i = map (\<lambda>out. Some (projr out)) (mapInOrder fn items) ! i"
      by (auto simp: mapInOrder_def)
  qed
  moreover have "\<forall>out \<in> set (mapInOrder fn items). \<not> isl out"
  proof
    fix out assume "out \<in> set (mapInOrder fn items)"
    then obtain i where "i < length items" "out = fn (items ! i) i"
      by (auto simp: mapInOrder_def)
    with stored [of i] show "\<not> isl out" by auto
  qed
  ultimately show ?thesis using rs by simp
qed

lemma sum_list_weight_update:
  "w < length ws \<Longrightarrow>
   sum_list (map weight (ws[w := x])) + weight (ws ! w) = sum_list (map weight ws) + weight x"
proof (induction ws arbitrary: w)
  case Nil
  then show ?case by simp
next
  case (Cons a ws)
  then show ?case by (cases w) auto
qed

lemma advance_decreases:
  assumes "live st w"
  shows "stepsLeft items (advance fn items st w) < stepsLeft items st"
proof -
  from assms have w: "w < length (workers st)" by (simp add: live_def)
  show ?thesis
  proof (cases "workers st ! w")
    case AtLoopTest
    show ?thesis
    proof (cases "nextIndex st < length items")
      case True
      with w AtLoopTest sum_list_weight_update [OF w, of "Awaiting (nextIndex st)"]
      show ?thesis by (simp add: advance_def stepsLeft_def weight_def)
    next
      case False
      with w AtLoopTest sum_list_weight_update [OF w, of Returned]
      show ?thesis by (simp add: advance_def stepsLeft_def weight_def)
    qed
  next
    case (Awaiting k)
    show ?thesis
    proof (cases "fn (items ! k) k")
      case (Inl e)
      with w Awaiting sum_list_weight_update [OF w, of "Threw e"]
      show ?thesis by (simp add: advance_def stepsLeft_def weight_def)
    next
      case (Inr r)
      with w Awaiting sum_list_weight_update [OF w, of AtLoopTest]
      show ?thesis by (simp add: advance_def stepsLeft_def weight_def)
    qed
  next
    case Returned
    with assms show ?thesis by (simp add: live_def)
  next
    case (Threw e)
    with assms show ?thesis by (simp add: live_def)
  qed
qed

lemma productive_bound:
  "productive fn items st sched \<Longrightarrow>
   length sched + stepsLeft items (runPool fn items sched st) \<le> stepsLeft items st"
proof (induction sched arbitrary: st)
  case Nil
  then show ?case by (simp add: runPool_def)
next
  case (Cons w ws)
  then have "live st w" and "productive fn items (advance fn items st w) ws" by auto
  from Cons.IH [OF this(2)] advance_decreases [OF this(1), of items fn]
  show ?case by (simp add: runPool_def)
qed

lemma stepsLeft_init:
  "stepsLeft items (initPool c items :: ('e, 'r) pool) = 2 * length items + min c (length items)"
  by (simp add: stepsLeft_def initPool_def weight_def sum_list_replicate)

lemma can_drain: "\<exists>more. \<forall>w. \<not> live (runPool fn items more st) w"
proof (induction "stepsLeft items st" arbitrary: st rule: less_induct)
  case less
  show ?case
  proof (cases "\<exists>w. live st w")
    case False
    then have "\<forall>w. \<not> live (runPool fn items [] st) w" by (simp add: runPool_def)
    then show ?thesis by blast
  next
    case True
    then obtain w where w: "live st w" by blast
    from less [OF advance_decreases [OF w]]
    obtain more where "\<forall>v. \<not> live (runPool fn items more (advance fn items st w)) v" by blast
    then have "\<forall>v. \<not> live (runPool fn items (w # more) st) v" by (simp add: runPool_def)
    then show ?thesis by blast
  qed
qed

lemma drained_returns:
  assumes inv: "poolInv fn items st"
    and ok: "\<forall>out \<in> set (mapInOrder fn items). \<not> isl out"
    and dead: "\<forall>w. \<not> live st w"
  shows "poolReturn st \<noteq> None"
proof -
  note I = inv [unfolded poolInv_def]
  have "workers st ! w = Returned" if w: "w < length (workers st)" for w
  proof (cases "workers st ! w")
    case AtLoopTest
    with dead w show ?thesis by (auto simp: live_def)
  next
    case (Awaiting i)
    with dead w show ?thesis by (auto simp: live_def)
  next
    case Returned
    then show ?thesis .
  next
    case (Threw e)
    with I w obtain i where i: "i < length items" "fn (items ! i) i = Inl e" by blast
    from i(1) have "fn (items ! i) i \<in> set (mapInOrder fn items)"
      unfolding mapInOrder_def by (auto intro!: image_eqI [where x = i])
    with ok i show ?thesis by force
  qed
  then show ?thesis by (simp add: poolReturn_def list_all_length)
qed

lemma runPool_append: "runPool fn items (s1 @ s2) st = runPool fn items s2 (runPool fn items s1 st)"
  by (simp add: runPool_def)

text \<open>
  C6. With at least one worker allowed: whenever \<open>runWithConcurrency\<close> returns, after any
  run of the workers, the array it returns holds at each index the value of the task of
  that index, as mapping the task over the items in order gives them, and no task has
  failed. When no task fails, every run can be continued to one that returns, and a run in
  which every step continues a worker has at most \<open>2 * n + min concurrency n\<close> steps.
\<close>

theorem pool_results_in_input_order:
  fixes fn :: "'a \<Rightarrow> nat \<Rightarrow> 'e + 'r"
  assumes c: "1 \<le> concurrency"
  shows "(\<forall>sched rs. runWithConcurrency items concurrency fn sched = Some rs \<longrightarrow>
            rs = map (\<lambda>out. Some (projr out)) (mapInOrder fn items)
            \<and> (\<forall>out \<in> set (mapInOrder fn items). \<not> isl out))
    \<and> ((\<forall>out \<in> set (mapInOrder fn items). \<not> isl out) \<longrightarrow>
          (\<forall>sched. \<exists>more. runWithConcurrency items concurrency fn (sched @ more) \<noteq> None))
    \<and> (\<forall>sched. productive fn items (initPool concurrency items) sched \<longrightarrow>
          length sched \<le> 2 * length items + min concurrency (length items))"
proof -
  let ?init = "initPool concurrency items :: ('e, 'r) pool"
  have inv: "poolInv fn items (runPool fn items sched ?init)" for sched
    by (rule poolInv_runPool [OF poolInv_init])
  have ne: "items = [] \<or> workers (runPool fn items sched ?init) \<noteq> []" for sched
  proof (cases "items = []")
    case True
    then show ?thesis by simp
  next
    case False
    have l: "length (workers (runPool fn items sched ?init)) = min concurrency (length items)"
      by (simp add: initPool_def)
    from False c have "0 < min concurrency (length items)" by simp
    then have "length (workers (runPool fn items sched ?init)) \<noteq> 0"
      unfolding l by simp
    then show ?thesis by (metis list.size(3))
  qed
  have 1: "rs = map (\<lambda>out. Some (projr out)) (mapInOrder fn items)
            \<and> (\<forall>out \<in> set (mapInOrder fn items). \<not> isl out)"
    if "runWithConcurrency items concurrency fn sched = Some rs" for sched rs
    using poolReturn_results [OF inv _ ne, of sched rs] that
    by (simp add: runWithConcurrency_def)
  have 2: "\<exists>more. runWithConcurrency items concurrency fn (sched @ more) \<noteq> None"
    if ok: "\<forall>out \<in> set (mapInOrder fn items). \<not> isl out" for sched
  proof -
    obtain more where d: "\<forall>w. \<not> live (runPool fn items more (runPool fn items sched ?init)) w"
      using can_drain by blast
    have "poolInv fn items (runPool fn items (sched @ more) ?init)" by (rule inv)
    from drained_returns [OF this ok] d
    have "poolReturn (runPool fn items (sched @ more) ?init) \<noteq> None"
      by (simp add: runPool_append)
    then show ?thesis unfolding runWithConcurrency_def by blast
  qed
  have 3: "length sched \<le> 2 * length items + min concurrency (length items)"
    if "productive fn items ?init sched" for sched
    using productive_bound [OF that] by (simp add: stepsLeft_init)
  from 1 2 3 show ?thesis by blast
qed

text \<open>
  Three items on two workers; the second worker's task ends first and it takes the third
  item before the first worker's task ends.
\<close>

theorem pool_results_in_input_order_witness:
  "(1::nat) \<le> 2
   \<and> runWithConcurrency [10, 20, 30 :: nat] 2 (\<lambda>x i. (Inr (x + i) :: unit + nat))
        [0, 1, 1, 1, 1, 0, 0, 1]
      = Some [Some 10, Some 21, Some 32]
   \<and> [Some 10, Some 21, Some 32]
      = map (\<lambda>out. Some (projr out)) (mapInOrder (\<lambda>x i. (Inr (x + i) :: unit + nat)) [10, 20, 30])"
proof -
  have c: "(1::nat) \<le> 2" by simp
  have r: "runWithConcurrency [10, 20, 30 :: nat] 2 (\<lambda>x i. (Inr (x + i) :: unit + nat))
        [0, 1, 1, 1, 1, 0, 0, 1]
      = Some [Some 10, Some 21, Some 32]"
    by (simp add: runWithConcurrency_def runPool_def initPool_def advance_def poolReturn_def
        numeral_2_eq_2 numeral_3_eq_3)
  from pool_results_in_input_order [OF c, THEN conjunct1, rule_format, OF r] c r
  show ?thesis by simp
qed

section \<open>Properties of the regeneration of a scene\<close>

lemma arrayGet_arraySet_same: "arrayGet (arraySet xs k v) k = Some v"
  by (simp add: arrayGet_def arraySet_def nth_append)

lemma arrayGet_arraySet_other: "j \<noteq> k \<Longrightarrow> arrayGet (arraySet xs k v) j = arrayGet xs j"
  by (auto simp: arrayGet_def arraySet_def nth_append nth_Cons')

lemma arraySet_length: "length (arraySet xs k v) = max (length xs) (k + 1)"
  by (simp add: arraySet_def)

text \<open>
  C7. For an index \<open>k\<close> and the address of an existing array \<open>currentAssets\<close>: no array
  that existed before is changed, the input array among them. The regeneration succeeds
  exactly when the configuration is fetched, the asset is generated and the assembly of the
  copy with the new asset at \<open>k\<close> gives a blob; a failure of the generation or of the
  assembly is returned with the message of the \<open>catch\<close> block, a failure to fetch the
  configuration rejects the promise and leaves the regenerating index set. When the
  regeneration succeeds, the new list is a new array; its element \<open>k\<close> is the address of the asset just
  generated, every other position reads the same address (or \<open>undefined\<close>) as in the input
  array, and its length is that of the input, or \<open>k + 1\<close> when \<open>k\<close> is past the end; the
  previous URL is revoked after the assembly has given its blob and before the new URL is
  made. When it does not succeed, nothing is revoked and the URL and the assets of the hook
  are as before.
\<close>

theorem regenerateScene_frame:
  fixes calls :: "'b regenCalls" and st :: "'b hook" and k currentAssets :: nat
    and previousBlobUrl :: "jsstring option"
  defines "res \<equiv> fst (regenerateScene calls k currentAssets previousBlobUrl st)"
    and "st' \<equiv> snd (regenerateScene calls k currentAssets previousBlobUrl st)"
  assumes valid: "currentAssets < nextAddr st"
  shows "(\<forall>a < nextAddr st. arrays st' a = arrays st a)
    \<and> (res = Inr Ok \<longrightarrow>
         (\<exists>useVideo asset blob.
            fetchProviderConfig calls = Inr useVideo
            \<and> generateSceneAsset calls useVideo = Inr asset
            \<and> assets st' = Some (nextAddr st)
            \<and> arrayGet (arrays st' (nextAddr st)) k = Some asset
            \<and> (\<forall>j. j \<noteq> k \<longrightarrow>
                  arrayGet (arrays st' (nextAddr st)) j = arrayGet (arrays st currentAssets) j)
            \<and> length (arrays st' (nextAddr st)) = max (length (arrays st currentAssets)) (k + 1)
            \<and> assembleVideo calls (arrays st' (nextAddr st)) = Inr blob
            \<and> videoBlobUrl st' = Some (createObjectURL calls blob)
            \<and> effects st' = effects st @ [CostAdded k, Assembled blob]
                 @ (case previousBlobUrl of None \<Rightarrow> [] | Some u \<Rightarrow> if u \<noteq> [] then [Revoked u] else [])
                 @ [UrlCreated (createObjectURL calls blob)]))
    \<and> (res \<noteq> Inr Ok \<longrightarrow>
         videoBlobUrl st' = videoBlobUrl st \<and> assets st' = assets st
         \<and> (effects st' = effects st \<or> effects st' = effects st @ [CostAdded k]))
    \<and> (\<forall>useVideo asset blob.
          fetchProviderConfig calls = Inr useVideo
          \<longrightarrow> generateSceneAsset calls useVideo = Inr asset
          \<longrightarrow> assembleVideo calls (arraySet (arrays st currentAssets) k asset) = Inr blob
          \<longrightarrow> res = Inr Ok \<and> regeneratingSceneIndex st' = None)
    \<and> (\<forall>useVideo asset e.
          fetchProviderConfig calls = Inr useVideo
          \<longrightarrow> generateSceneAsset calls useVideo = Inr asset
          \<longrightarrow> assembleVideo calls (arraySet (arrays st currentAssets) k asset) = Inl e
          \<longrightarrow> res = Inr (regenerateFailure e) \<and> regeneratingSceneIndex st' = None
               \<and> effects st' = effects st @ [CostAdded k])
    \<and> (\<forall>useVideo e.
          fetchProviderConfig calls = Inr useVideo
          \<longrightarrow> generateSceneAsset calls useVideo = Inl e
          \<longrightarrow> res = Inr (regenerateFailure e) \<and> regeneratingSceneIndex st' = None
               \<and> effects st' = effects st)
    \<and> (\<forall>e. fetchProviderConfig calls = Inl e
          \<longrightarrow> res = Inl e \<and> regeneratingSceneIndex st' = Some k \<and> effects st' = effects st)"
proof (cases "fetchProviderConfig calls")
  case (Inl e)
  then show ?thesis
    by (simp add: res_def st'_def regenerateScene_def)
next
  case cfg: (Inr useVideo)
  show ?thesis
  proof (cases "generateSceneAsset calls useVideo")
    case (Inl e)
    with cfg show ?thesis
      by (simp add: res_def st'_def regenerateScene_def regenerateFailure_def split: jsError.splits)
  next
    case gen: (Inr asset)
    let ?new = "arraySet (arrays st currentAssets) k asset"
    show ?thesis
    proof (cases "assembleVideo calls ?new")
      case (Inl e)
      with cfg gen valid show ?thesis
        by (simp add: res_def st'_def regenerateScene_def regenerateFailure_def Let_def
            split: jsError.splits)
    next
      case (Inr blob)
      with cfg gen valid show ?thesis
        by (simp add: res_def st'_def regenerateScene_def Let_def arrayGet_arraySet_same
            arrayGet_arraySet_other arraySet_length split: option.splits)
    qed
  qed
qed

text \<open>
  Three assets, the second regenerated: once with an assembly that gives a blob, once with
  one that fails, once with a generation that is aborted, and once with a configuration
  that cannot be fetched.
\<close>

theorem regenerateScene_frame_witness:
  "(0 :: nat) < nextAddr sampleHook
   \<and> fst (regenerateScene (sampleCalls (Inr 7)) 1 0 (Some (str ''blob:old'')) sampleHook) = Inr Ok
   \<and> arrays (snd (regenerateScene (sampleCalls (Inr 7)) 1 0 (Some (str ''blob:old'')) sampleHook)) 0
       = [Some 100, Some 101, Some 102]
   \<and> arrays (snd (regenerateScene (sampleCalls (Inr 7)) 1 0 (Some (str ''blob:old'')) sampleHook)) 1
       = [Some 100, Some 200, Some 102]
   \<and> effects (snd (regenerateScene (sampleCalls (Inr 7)) 1 0 (Some (str ''blob:old'')) sampleHook))
       = [CostAdded 1, Assembled 7, Revoked (str ''blob:old''), UrlCreated (str ''blob:new'')]
   \<and> fst (regenerateScene (sampleCalls (Inl (OtherError (str ''Video assembly timed out''))))
        1 0 (Some (str ''blob:old'')) sampleHook) = Inr (NotOk (str ''Video assembly timed out''))
   \<and> videoBlobUrl (snd (regenerateScene (sampleCalls (Inl (OtherError (str ''Video assembly timed out''))))
        1 0 (Some (str ''blob:old'')) sampleHook)) = Some (str ''blob:old'')
   \<and> effects (snd (regenerateScene (sampleCalls (Inl (OtherError (str ''Video assembly timed out''))))
        1 0 (Some (str ''blob:old'')) sampleHook)) = [CostAdded 1]
   \<and> fst (regenerateScene
        ((sampleCalls (Inr 7))\<lparr>generateSceneAsset := (\<lambda>useVideo. Inl (AbortError (str ''aborted'')))\<rparr>)
        1 0 (Some (str ''blob:old'')) sampleHook) = Inr (NotOk (str ''Regeneration cancelled''))
   \<and> effects (snd (regenerateScene
        ((sampleCalls (Inr 7))\<lparr>generateSceneAsset := (\<lambda>useVideo. Inl (AbortError (str ''aborted'')))\<rparr>)
        1 0 (Some (str ''blob:old'')) sampleHook)) = []
   \<and> fst (regenerateScene ((sampleCalls (Inr 7))\<lparr>fetchProviderConfig := Inl NotAnError\<rparr>)
        1 0 (Some (str ''blob:old'')) sampleHook) = Inl NotAnError
   \<and> regeneratingSceneIndex (snd (regenerateScene
        ((sampleCalls (Inr 7))\<lparr>fetchProviderConfig := Inl NotAnError\<rparr>)
        1 0 (Some (str ''blob:old'')) sampleHook)) = Some 1"
proof -
  let ?timeout = "OtherError (str ''Video assembly timed out'')"
  let ?abort = "(sampleCalls (Inr 7))\<lparr>generateSceneAsset := (\<lambda>useVideo. Inl (AbortError (str ''aborted'')))\<rparr>"
  let ?nocfg = "(sampleCalls (Inr 7))\<lparr>fetchProviderConfig := Inl NotAnError\<rparr>"
  let ?ok = "regenerateScene (sampleCalls (Inr 7)) 1 0 (Some (str ''blob:old'')) sampleHook"
  let ?ko = "regenerateScene (sampleCalls (Inl ?timeout)) 1 0 (Some (str ''blob:old'')) sampleHook"
  let ?ab = "regenerateScene ?abort 1 0 (Some (str ''blob:old'')) sampleHook"
  let ?rej = "regenerateScene ?nocfg 1 0 (Some (str ''blob:old'')) sampleHook"
  have v: "(0 :: nat) < nextAddr sampleHook" by (simp add: sampleHook_def)
  have cfg: "fetchProviderConfig (sampleCalls x) = Inr False"
    and gen: "generateSceneAsset (sampleCalls x) False = Inr 200"
    and asm: "assembleVideo (sampleCalls x) (arraySet (arrays sampleHook 0) 1 200) = x"
    for x :: "jsError + nat"
    by (simp_all add: sampleCalls_def)
  have cfg': "fetchProviderConfig ?abort = Inr False"
    and gen': "generateSceneAsset ?abort False = Inl (AbortError (str ''aborted''))"
    and cfg'': "fetchProviderConfig ?nocfg = Inl NotAnError"
    by (simp_all add: sampleCalls_def)
  note t1 = regenerateScene_frame [OF v, of "sampleCalls (Inr 7)" 1 "Some (str ''blob:old'')"]
  note t2 = regenerateScene_frame [OF v, of "sampleCalls (Inl ?timeout)" 1 "Some (str ''blob:old'')"]
  note t3 = regenerateScene_frame [OF v, of ?abort 1 "Some (str ''blob:old'')"]
  note t4 = regenerateScene_frame [OF v, of ?nocfg 1 "Some (str ''blob:old'')"]
  note s1 = t1 [THEN conjunct2, THEN conjunct2, THEN conjunct2, THEN conjunct1, rule_format,
      OF cfg gen asm]
  note s2 = t2 [THEN conjunct2, THEN conjunct2, THEN conjunct2, THEN conjunct2, THEN conjunct1,
      rule_format, OF cfg gen asm]
  note s3 = t3 [THEN conjunct2, THEN conjunct2, THEN conjunct2, THEN conjunct2, THEN conjunct2,
      THEN conjunct1, rule_format, OF cfg' gen']
  note s4 = t4 [THEN conjunct2, THEN conjunct2, THEN conjunct2, THEN conjunct2, THEN conjunct2,
      THEN conjunct2, rule_format, OF cfg'']
  from s1 have ok: "fst ?ok = Inr Ok" by simp
  from s2 have ko: "fst ?ko = Inr (NotOk (str ''Video assembly timed out''))"
    and ef2: "effects (snd ?ko) = [CostAdded 1]"
    by (simp_all add: regenerateFailure_def sampleHook_def)
  from s3 have ab: "fst ?ab = Inr (NotOk (str ''Regeneration cancelled''))"
    and ef3: "effects (snd ?ab) = []"
    by (simp_all add: regenerateFailure_def sampleHook_def)
  from s4 have rej: "fst ?rej = Inl NotAnError"
    and idx: "regeneratingSceneIndex (snd ?rej) = Some 1"
    by simp_all
  from t1 have a0: "arrays (snd ?ok) 0 = [Some 100, Some 101, Some 102]"
    by (simp add: sampleHook_def)
  from t1 ok have a1: "arrays (snd ?ok) 1 = [Some 100, Some 200, Some 102]"
    and ef: "effects (snd ?ok)
       = [CostAdded 1, Assembled 7, Revoked (str ''blob:old''), UrlCreated (str ''blob:new'')]"
    by (simp_all add: regenerateScene_def sampleCalls_def sampleHook_def Let_def str_def
        arraySet_def)
  from t2 ko have u: "videoBlobUrl (snd ?ko) = Some (str ''blob:old'')"
    by (simp add: sampleHook_def)
  from v ok a0 a1 ef ko u ef2 ab ef3 rej idx show ?thesis by blast
qed

section \<open>Properties of the assemble endpoint\<close>

lemma parseSceneAsset_wellFormed: "parseSceneAsset j = Some scene \<Longrightarrow> wellFormed scene"
  unfolding parseSceneAsset_def wellFormed_def
  by (auto simp: zString1_def zPositive_def
      split: json.splits option.splits if_splits)

lemma parseAssembleBody_wellFormed:
  assumes "parseAssembleBody j = Some (scenes, captions)"
  shows "\<forall>scene \<in> set scenes. wellFormed scene"
proof -
  from assms obtain xs where xs: "list_all (\<lambda>x. parseSceneAsset x \<noteq> None) xs"
    and sc: "scenes = map (\<lambda>x. the (parseSceneAsset x)) xs"
    unfolding parseAssembleBody_def
    by (auto split: json.splits option.splits if_splits)
  show ?thesis
  proof
    fix scene assume "scene \<in> set scenes"
    with sc obtain x where "x \<in> set xs" "scene = the (parseSceneAsset x)" by auto
    moreover from this xs have "parseSceneAsset x \<noteq> None" by (simp add: list_all_iff)
    ultimately have "parseSceneAsset x = Some scene" by auto
    then show "wellFormed scene" by (rule parseSceneAsset_wellFormed)
  qed
qed

lemma renderScene_wellFormed:
  assumes "wellFormed scene"
  shows "fst (renderScene e captions scene i w) = None
    \<or> (\<exists>err. fst (renderScene e captions scene i w) = Some (Inl (FfmpegError err)))"
  using assms unfolding renderScene_def wellFormed_def Let_def
  by (auto split: prod.splits sum.splits)

lemma renderScenes_wellFormed:
  "\<forall>scene \<in> set scenes. wellFormed scene \<Longrightarrow>
   fst (renderScenes e captions scenes i w) = None
    \<or> (\<exists>err. fst (renderScenes e captions scenes i w) = Some (Inl (FfmpegError err)))"
proof (induction scenes arbitrary: i w)
  case Nil
  then show ?case by simp
next
  case (Cons scene rest)
  then have wf: "wellFormed scene" and rest: "\<forall>s \<in> set rest. wellFormed s" by auto
  obtain r w1 where r: "renderScene e captions scene i w = (r, w1)"
    by (cases "renderScene e captions scene i w")
  show ?case
  proof (cases r)
    case None
    with r Cons.IH [OF rest, of "i + 1" w1] show ?thesis by simp
  next
    case (Some stop)
    with r renderScene_wellFormed [OF wf, of e captions i w] show ?thesis by auto
  qed
qed

lemma concatSegments_response:
  "fst (concatSegments e w) = Inr r \<Longrightarrow> r = Video"
  unfolding concatSegments_def Let_def by (auto split: timeoutEvent.splits)

text \<open>
  The outcome of the concatenation is the one of awaiting \<open>withTimeout\<close> on it with the
  deadline of the assembly.
\<close>

lemma concatSegments_deadline:
  "fst (concatSegments e w) =
     (case outer (withTimeout ASSEMBLE_VIDEO_TIMEOUT_MS (Some (str ''Video assembly timed out''))
                    [concatRace e]) of
        Resolved u \<Rightarrow> Inr Video
      | Rejected (TimeoutError m) \<Rightarrow> Inl (TimedOut m)
      | Rejected (Reason err) \<Rightarrow> Inl (FfmpegError err)
      | Pending \<Rightarrow> fst (concatSegments e w))"
  unfolding withTimeout_first_event concatSegments_def Let_def
  by (simp split: timeoutEvent.splits)

lemma assembleBody_response:
  assumes "assembleBody e request w = (Inr r, w1)"
  shows "(r = ValidationErrors \<and> w1 = w \<and> (\<exists>j. body request = Some j \<and> parseAssembleBody j = None))
    \<or> r = Video"
proof (cases "body request")
  case None
  with assms show ?thesis by (simp add: assembleBody_def)
next
  case (Some j)
  show ?thesis
  proof (cases "parseAssembleBody j")
    case None
    with Some assms show ?thesis by (simp add: assembleBody_def)
  next
    case parsed: (Some p)
    obtain scenes captions where p: "p = (scenes, captions)" by (cases p)
    from parsed p have wf: "\<forall>scene \<in> set scenes. wellFormed scene"
      using parseAssembleBody_wellFormed by blast
    obtain s w2 where rs: "renderScenes e captions scenes 0 w = (s, w2)"
      by (cases "renderScenes e captions scenes 0 w")
    from renderScenes_wellFormed [OF wf, of e captions 0 w] rs
    have s: "s = None \<or> (\<exists>err. s = Some (Inl (FfmpegError err)))" by simp
    show ?thesis
    proof (cases s)
      case None
      with Some parsed p rs assms have "concatSegments e w2 = (Inr r, w1)"
        by (simp add: assembleBody_def)
      then have "r = Video" using concatSegments_response [of e w2 r] by simp
      then show ?thesis by simp
    next
      case (Some stop)
      with s obtain err where "s = Some (Inl (FfmpegError err))" by auto
      with \<open>body request = Some j\<close> parsed p rs assms show ?thesis
        by (simp add: assembleBody_def)
    qed
  qed
qed

lemma assembleInTmpDir_response:
  assumes "assembleInTmpDir e request w = (Inr r, w1)"
  shows "(r = ValidationErrors \<and> w1 = cleanup (mkdirSync w)
          \<and> (\<exists>j. body request = Some j \<and> parseAssembleBody j = None))
    \<or> r = Video"
proof -
  obtain r0 w0 where b: "assembleBody e request (mkdirSync w) = (r0, w0)"
    by (cases "assembleBody e request (mkdirSync w)")
  with assms have "r0 = Inr r" "w1 = cleanup w0"
    by (simp_all add: assembleInTmpDir_def)
  with b assembleBody_response [of e request "mkdirSync w" r w0] show ?thesis by auto
qed

lemma cleanup_mkdirSync:
  "cleanup (mkdirSync w) =
     w\<lparr>dirExists := False, files := [], fsOps := fsOps w @ [Mkdir] @ map Unlink (files w) @ [Rmdir]\<rparr>"
  by (simp add: cleanup_def mkdirSync_def)

lemma oversize_iff:
  "oversize request \<longleftrightarrow>
     (\<exists>cl n. contentLength request = Some cl \<and> parseInt10 cl = Some n \<and> MAX_ASSEMBLE_BODY_BYTES < n)"
proof -
  have "parseInt10 [] = None" by (simp add: parseInt10_def)
  then show ?thesis
    unfolding oversize_def by (auto split: option.splits)
qed

text \<open>
  C10. The handler answers with status 413 exactly when the request has a
  \<open>content-length\<close> header whose value, read by \<open>parseInt\<close>, is greater than
  \<open>MAX_ASSEMBLE_BODY_BYTES\<close>, which is 50 MB; the answer is then \<open>Request body too
  large\<close> and nothing else has happened. Without the header the handler is the rest of its
  body: the temporary directory, the parsing of the body and the validation.
\<close>

theorem body_size_rejection:
  "((\<exists>r. fst (handleAssembleVideo e request w) = Inr r \<and> status r = 413) \<longleftrightarrow>
      (\<exists>cl n. contentLength request = Some cl \<and> parseInt10 cl = Some n
          \<and> MAX_ASSEMBLE_BODY_BYTES < n))
   \<and> ((\<exists>cl n. contentLength request = Some cl \<and> parseInt10 cl = Some n
          \<and> MAX_ASSEMBLE_BODY_BYTES < n) \<longrightarrow>
        handleAssembleVideo e request w
          = (Inr (ApiError 413 (str ''Request body too large'') (str ''BAD_REQUEST'')), w))
   \<and> (contentLength request = None \<longrightarrow>
        handleAssembleVideo e request w = assembleInTmpDir e request w)
   \<and> MAX_ASSEMBLE_BODY_BYTES = 52428800"
proof -
  have not413: "status r \<noteq> 413" if "fst (assembleInTmpDir e request w) = Inr r" for r
  proof -
    have "assembleInTmpDir e request w = (Inr r, snd (assembleInTmpDir e request w))"
      using that by (metis prod.collapse)
    from assembleInTmpDir_response [OF this] show ?thesis by auto
  qed
  have 1: "(\<exists>r. fst (handleAssembleVideo e request w) = Inr r \<and> status r = 413) \<longleftrightarrow>
      oversize request"
    using not413 by (auto simp: handleAssembleVideo_def)
  have 2: "oversize request \<longrightarrow> handleAssembleVideo e request w
          = (Inr (ApiError 413 (str ''Request body too large'') (str ''BAD_REQUEST'')), w)"
    by (simp add: handleAssembleVideo_def)
  have 3: "contentLength request = None \<longrightarrow>
        handleAssembleVideo e request w = assembleInTmpDir e request w"
    by (simp add: handleAssembleVideo_def oversize_def)
  have 4: "MAX_ASSEMBLE_BODY_BYTES = 52428800"
    by (simp add: MAX_ASSEMBLE_BODY_BYTES_def)
  from 1 2 3 4 show ?thesis unfolding oversize_iff by blast
qed

lemma parseInt10_60000000: "parseInt10 (str ''60000000'') = Some 60000000"
  by (simp add: parseInt10_def str_def isWhiteSpace_def isDigit_def digitsValue_def)

lemma parseInt10_limit: "parseInt10 (str ''52428800'') = Some 52428800"
  by (simp add: parseInt10_def str_def isWhiteSpace_def isDigit_def digitsValue_def)

text \<open>
  A header of 60000000 is rejected, no header is not, and a header of exactly 52428800 is
  not: the handler goes on and fails on the body, which cannot be parsed here.
\<close>

theorem body_size_rejection_witness:
  "handleAssembleVideo idleEnv \<lparr>contentLength = Some (str ''60000000''), body = None\<rparr> emptyWorld
     = (Inr (ApiError 413 (str ''Request body too large'') (str ''BAD_REQUEST'')), emptyWorld)
   \<and> handleAssembleVideo idleEnv \<lparr>contentLength = None, body = None\<rparr> emptyWorld
     = assembleInTmpDir idleEnv \<lparr>contentLength = None, body = None\<rparr> emptyWorld
   \<and> fst (handleAssembleVideo idleEnv \<lparr>contentLength = Some (str ''52428800''), body = None\<rparr>
        emptyWorld) = Inl SyntaxError"
proof -
  note t = body_size_rejection [of idleEnv _ emptyWorld]
  have a: "handleAssembleVideo idleEnv \<lparr>contentLength = Some (str ''60000000''), body = None\<rparr>
        emptyWorld
     = (Inr (ApiError 413 (str ''Request body too large'') (str ''BAD_REQUEST'')), emptyWorld)"
    using t [of "\<lparr>contentLength = Some (str ''60000000''), body = None\<rparr>"]
    by (simp add: parseInt10_60000000 MAX_ASSEMBLE_BODY_BYTES_def)
  have b: "handleAssembleVideo idleEnv \<lparr>contentLength = None, body = None\<rparr> emptyWorld
     = assembleInTmpDir idleEnv \<lparr>contentLength = None, body = None\<rparr> emptyWorld"
    using t [of "\<lparr>contentLength = None, body = None\<rparr>"] by simp
  have c: "fst (handleAssembleVideo idleEnv \<lparr>contentLength = Some (str ''52428800''), body = None\<rparr>
        emptyWorld) = Inl SyntaxError"
    by (simp add: handleAssembleVideo_def oversize_def parseInt10_limit
        MAX_ASSEMBLE_BODY_BYTES_def assembleInTmpDir_def assembleBody_def)
  from a b c show ?thesis by blast
qed


lemma runSegment_runs:
  "ffmpegRuns (snd (runSegment e i chain w)) = ffmpegRuns w @ [(i, chain)]"
  by (simp add: runSegment_def Let_def split: option.splits)

lemma runSegment_fst: "fst (runSegment e i chain w) = ffmpegSegment e i chain"
  by (simp add: runSegment_def Let_def split: option.splits)


lemma writeFileSync_runs [simp]: "ffmpegRuns (writeFileSync name w) = ffmpegRuns w"
  by (simp add: writeFileSync_def)


lemma parse_sampleScene: "parseSceneAsset sampleSceneJson = Some sampleScene"
  by (simp add: parseSceneAsset_def sampleSceneJson_def sampleScene_def field_def str_def
      zIndex_def zString1Optional_def zString1_def zPositive_def zStringOptional_def truthy_def)

lemma parse_elevenScenes:
  "parseAssembleBody (JObj [(str ''scenes'', JArr (replicate 11 sampleSceneJson))]) = None"
  by (simp add: parseAssembleBody_def field_def zCaptions_def MAX_SCENES_def)

lemma parseAssembleBody_scenes:
  assumes "field ''scenes'' kvs = Some (JArr xs)"
    and "length xs < 1 \<or> MAX_SCENES < length xs \<or> (\<exists>x \<in> set xs. parseSceneAsset x = None)"
  shows "parseAssembleBody (JObj kvs) = None"
  using assms
  by (auto simp: parseAssembleBody_def list_all_iff split: option.splits)

lemma parseSceneAsset_duration:
  "field ''durationSeconds'' kvs = Some (JNum d) \<Longrightarrow> d \<le> 0 \<Longrightarrow> parseSceneAsset (JObj kvs) = None"
  by (simp add: parseSceneAsset_def zPositive_def split: option.splits)

lemma parseSceneAsset_both:
  "field ''imageBase64'' kvs = Some (JStr a) \<Longrightarrow> field ''videoBase64'' kvs = Some (JStr b) \<Longrightarrow>
   parseSceneAsset (JObj kvs) = None"
  by (auto simp: parseSceneAsset_def zString1Optional_def truthy_def split: option.splits)

lemma parseSceneAsset_neither:
  "field ''imageBase64'' kvs = None \<Longrightarrow> field ''videoBase64'' kvs = None \<Longrightarrow>
   parseSceneAsset (JObj kvs) = None"
  by (auto simp: parseSceneAsset_def zString1Optional_def truthy_def split: option.splits)

text \<open>
  C2, as the code has it. A request rejected for its \<open>content-length\<close> leaves everything
  as it was. A request whose body fails the schema is answered with 400 after the temporary
  directory has been made and before any file is written or ffmpeg is run, and the
  directory is removed again before the handler returns. Every answer with status 400 is
  of this kind: the checks inside the loop never fail after the schema has passed. The
  schema fails for no scene, for more than \<open>MAX_SCENES\<close> scenes, for a scene that fails
  its own schema, and a scene fails it for a duration that is not positive, for both an
  image and a video, and for neither.
\<close>

theorem validation_failure_effects:
  fixes e :: env and request :: request and w :: world
  defines "tooLarge \<equiv> (\<exists>cl n. contentLength request = Some cl \<and> parseInt10 cl = Some n
      \<and> MAX_ASSEMBLE_BODY_BYTES < n)"
  defines "removed \<equiv> w\<lparr>dirExists := False, files := [],
      fsOps := fsOps w @ [Mkdir] @ map Unlink (files w) @ [Rmdir]\<rparr>"
  shows "(tooLarge \<longrightarrow> snd (handleAssembleVideo e request w) = w)
    \<and> (\<forall>j. \<not> tooLarge \<and> body request = Some j \<and> parseAssembleBody j = None \<longrightarrow>
          handleAssembleVideo e request w = (Inr ValidationErrors, removed))
    \<and> (\<forall>r w'. handleAssembleVideo e request w = (Inr r, w') \<and> status r = 400 \<longrightarrow>
          r = ValidationErrors \<and> w' = removed
          \<and> (\<exists>j. body request = Some j \<and> parseAssembleBody j = None))
    \<and> (\<forall>kvs xs. field ''scenes'' kvs = Some (JArr xs)
          \<and> (length xs < 1 \<or> MAX_SCENES < length xs \<or> (\<exists>x \<in> set xs. parseSceneAsset x = None))
          \<longrightarrow> parseAssembleBody (JObj kvs) = None)
    \<and> (\<forall>kvs d. field ''durationSeconds'' kvs = Some (JNum d) \<and> d \<le> 0 \<longrightarrow>
          parseSceneAsset (JObj kvs) = None)
    \<and> (\<forall>kvs a b. field ''imageBase64'' kvs = Some (JStr a)
          \<and> field ''videoBase64'' kvs = Some (JStr b) \<longrightarrow> parseSceneAsset (JObj kvs) = None)
    \<and> (\<forall>kvs. field ''imageBase64'' kvs = None \<and> field ''videoBase64'' kvs = None \<longrightarrow>
          parseSceneAsset (JObj kvs) = None)"
proof -
  have tl: "tooLarge \<longleftrightarrow> oversize request"
    unfolding tooLarge_def oversize_iff ..
  have 1: "tooLarge \<longrightarrow> snd (handleAssembleVideo e request w) = w"
    by (simp add: tl handleAssembleVideo_def)
  have 2: "handleAssembleVideo e request w = (Inr ValidationErrors, removed)"
    if "\<not> tooLarge \<and> body request = Some j \<and> parseAssembleBody j = None" for j
    using that
    by (simp add: tl handleAssembleVideo_def assembleInTmpDir_def assembleBody_def
        cleanup_mkdirSync removed_def)
  have 3: "r = ValidationErrors \<and> w' = removed
          \<and> (\<exists>j. body request = Some j \<and> parseAssembleBody j = None)"
    if h: "handleAssembleVideo e request w = (Inr r, w') \<and> status r = 400" for r w'
  proof (cases "oversize request")
    case True
    with h show ?thesis by (auto simp: handleAssembleVideo_def)
  next
    case False
    with h have "assembleInTmpDir e request w = (Inr r, w')"
      by (simp add: handleAssembleVideo_def)
    from assembleInTmpDir_response [OF this] h show ?thesis
      by (auto simp: cleanup_mkdirSync removed_def)
  qed
  from 1 2 3 parseAssembleBody_scenes parseSceneAsset_duration parseSceneAsset_both
    parseSceneAsset_neither
  show ?thesis by blast
qed

text \<open>A request with eleven scenes, each of them well formed.\<close>

theorem validation_failure_effects_witness:
  "parseAssembleBody (JObj [(str ''scenes'', JArr (replicate 11 sampleSceneJson))]) = None
   \<and> handleAssembleVideo idleEnv elevenScenes emptyWorld
      = (Inr ValidationErrors,
         \<lparr>dirExists = False, files = [], fsOps = [Mkdir, Rmdir], ffmpegRuns = []\<rparr>)"
proof -
  have c: "contentLength elevenScenes = None"
    and b: "body elevenScenes = Some (JObj [(str ''scenes'', JArr (replicate 11 sampleSceneJson))])"
    by (simp_all add: elevenScenes_def)
  from validation_failure_effects [of elevenScenes idleEnv emptyWorld,
      THEN conjunct2, THEN conjunct1, rule_format,
      of "JObj [(str ''scenes'', JArr (replicate 11 sampleSceneJson))]"]
    c b parse_elevenScenes
  show ?thesis by (simp add: emptyWorld_def)
qed

text \<open>
  C2 as stated fails: for the request with eleven scenes, which the schema rejects, the
  temporary directory is made (and removed).
\<close>

theorem validation_creates_directory:
  "parseAssembleBody (JObj [(str ''scenes'', JArr (replicate 11 sampleSceneJson))]) = None
   \<and> fsOps (snd (handleAssembleVideo idleEnv elevenScenes emptyWorld)) = [Mkdir, Rmdir]
   \<and> fsOps emptyWorld = []"
  by (simp add: parse_elevenScenes handleAssembleVideo_def oversize_def elevenScenes_def
      assembleInTmpDir_def assembleBody_def cleanup_mkdirSync emptyWorld_def)


end
